theory Spec2Isabelle
  imports Complex_Main
begin

section \<open>JavaScript strings\<close>

text \<open>
  A JavaScript string is a sequence of UTF-16 code units. The model covers the code
  units 0..255, one \<^typ>\<open>char\<close> each, and on those every string primitive the
  sources use is modelled as ECMAScript defines it: the class \<open>\s\<close> and \<open>trim\<close> know the
  seven white-space units below 256, \<open>toLowerCase\<close> maps A..Z and the upper-case letters of
  the Latin-1 block, \<open>\d\<close> is 0..9 and a regular expression with the flag \<open>i\<close> (and no flag
  \<open>u\<close>) matches an ASCII letter of the pattern against its two ASCII cases only.
\<close>

definition DQ :: char where
  "DQ = CHR 0x22"

definition BSL :: char where
  "BSL = CHR 0x5C"

definition isSpace :: "char \<Rightarrow> bool" where
  "isSpace c = (c \<in> set [CHR 0x09, CHR 0x0A, CHR 0x0B, CHR 0x0C, CHR 0x0D, CHR 0x20, CHR 0xA0])"

definition isDigit :: "char \<Rightarrow> bool" where
  "isDigit c = (let n = (of_char c :: nat) in 48 \<le> n \<and> n \<le> 57)"

definition toLowerChar :: "char \<Rightarrow> char" where
  "toLowerChar c =
     (let n = (of_char c :: nat)
      in if (65 \<le> n \<and> n \<le> 90) \<or> (192 \<le> n \<and> n \<le> 222 \<and> n \<noteq> 215)
         then char_of (n + 32) else c)"

definition toLowerCase :: "string \<Rightarrow> string" where
  "toLowerCase s = map toLowerChar s"

definition trimStart :: "string \<Rightarrow> string" where
  "trimStart s = dropWhile isSpace s"

definition trimEnd :: "string \<Rightarrow> string" where
  "trimEnd s = rev (dropWhile isSpace (rev s))"

definition trim :: "string \<Rightarrow> string" where
  "trim s = trimEnd (trimStart s)"

text \<open>\<open>s[i]\<close>: \<open>None\<close> is JavaScript's \<open>undefined\<close>, which equals no character.\<close>

definition charAt :: "string \<Rightarrow> nat \<Rightarrow> char option" where
  "charAt s i = (if i < length s then Some (s ! i) else None)"

text \<open>\<open>s.slice(a, b)\<close> and \<open>s.slice(a)\<close> for indices that are not negative.\<close>

definition slice :: "string \<Rightarrow> nat \<Rightarrow> nat \<Rightarrow> string" where
  "slice s a b = take (b - a) (drop a s)"

definition sliceFrom :: "string \<Rightarrow> nat \<Rightarrow> string" where
  "sliceFrom s a = drop a s"

definition startsWith :: "string \<Rightarrow> string \<Rightarrow> bool" where
  "startsWith s p = (take (length p) s = p)"

definition endsWith :: "string \<Rightarrow> string \<Rightarrow> bool" where
  "endsWith s p = (length p \<le> length s \<and> drop (length s - length p) s = p)"

text \<open>\<open>s.indexOf(c)\<close> and \<open>s.lastIndexOf(c)\<close> for a single character; \<open>None\<close> is \<open>-1\<close>.\<close>

fun indexOf :: "string \<Rightarrow> char \<Rightarrow> nat option" where
  "indexOf [] c = None"
| "indexOf (x # xs) c = (if x = c then Some 0 else map_option Suc (indexOf xs c))"

definition lastIndexOf :: "string \<Rightarrow> char \<Rightarrow> nat option" where
  "lastIndexOf s c =
     (case indexOf (rev s) c of None \<Rightarrow> None | Some k \<Rightarrow> Some (length s - 1 - k))"

text \<open>\<open>s.split(c)\<close> for a single character.\<close>

fun splitChar :: "char \<Rightarrow> string \<Rightarrow> string list" where
  "splitChar c [] = [[]]"
| "splitChar c (x # xs) =
     (if x = c then [] # splitChar c xs
      else (case splitChar c xs of [] \<Rightarrow> [[x]] | w # ws \<Rightarrow> (x # w) # ws))"

text \<open>\<open>s.split(/\s+/)\<close>: the pieces between maximal runs of white space.\<close>

function splitSpaces :: "string \<Rightarrow> string list" where
  "splitSpaces s =
     (let w = takeWhile (\<lambda>c. \<not> isSpace c) s; r = dropWhile (\<lambda>c. \<not> isSpace c) s
      in if r = [] then [w] else w # splitSpaces (dropWhile isSpace r))"
  by pat_completeness auto
termination
proof (relation "measure length")
  fix s :: string and w r :: string
  assume r: "r = dropWhile (\<lambda>c. \<not> isSpace c) s" and ne: "r \<noteq> []"
  have "\<not> \<not> isSpace (hd r)" unfolding r using ne r hd_dropWhile by blast
  then have "dropWhile isSpace r = dropWhile isSpace (tl r)"
    using ne by (cases r) auto
  then have "length (dropWhile isSpace r) \<le> length (tl r)"
    using length_dropWhile_le[of isSpace "tl r"] by simp
  moreover have "length (tl r) < length r" using ne by (cases r) auto
  moreover have "length r \<le> length s" unfolding r by (rule length_dropWhile_le)
  ultimately show "(dropWhile isSpace r, s) \<in> measure length" by simp
qed simp

text \<open>\<open>xs.join(sep)\<close>.\<close>

fun join :: "string \<Rightarrow> string list \<Rightarrow> string" where
  "join sep [] = []"
| "join sep [x] = x"
| "join sep (x # y # ys) = x @ sep @ join sep (y # ys)"

text \<open>
  The elements of \<open>new Set(xs)\<close>, and the keys of a \<open>Map\<close> filled from \<open>xs\<close>, in
  iteration order: each element once, at its first occurrence.
\<close>

fun dedup :: "'a list \<Rightarrow> 'a list \<Rightarrow> 'a list" where
  "dedup seen [] = seen"
| "dedup seen (x # xs) = (if x \<in> set seen then dedup seen xs else dedup (seen @ [x]) xs)"

definition toSet :: "'a list \<Rightarrow> 'a list" where
  "toSet xs = dedup [] xs"

text \<open>\<open>while (i < s.length && P(s[i])) i++\<close>, the value of \<open>i\<close> after the loop.\<close>

function scanWhile :: "(char \<Rightarrow> bool) \<Rightarrow> string \<Rightarrow> nat \<Rightarrow> nat" where
  "scanWhile P s i = (if i < length s \<and> P (s ! i) then scanWhile P s (Suc i) else i)"
  by pat_completeness auto
termination
  by (relation "measure (\<lambda>(P, s, i). length s - i)") auto

declare scanWhile.simps [simp del]

lemma scanWhile_ge: "i \<le> scanWhile P s i"
proof (induction P s i rule: scanWhile.induct)
  case (1 P s i)
  show ?case
  proof (cases "i < length s \<and> P (s ! i)")
    case True
    then have "Suc i \<le> scanWhile P s (Suc i)" using "1.IH" by simp
    then show ?thesis using True by (subst scanWhile.simps) simp
  next
    case False
    then show ?thesis by (subst scanWhile.simps) auto
  qed
qed

lemma scanWhile_gt: "i < length s \<Longrightarrow> P (s ! i) \<Longrightarrow> i < scanWhile P s i"
  using scanWhile_ge[of "Suc i" P s] by (subst scanWhile.simps) simp

lemma scanWhile_stop: "scanWhile P s i < length s \<Longrightarrow> \<not> P (s ! scanWhile P s i)"
proof (induction P s i rule: scanWhile.induct)
  case (1 P s i)
  show ?case
  proof (cases "i < length s \<and> P (s ! i)")
    case True
    then have e: "scanWhile P s i = scanWhile P s (Suc i)" by (subst scanWhile.simps) simp
    with "1.IH"[OF True] "1.prems" show ?thesis by simp
  next
    case False
    then have e: "scanWhile P s i = i" by (subst scanWhile.simps) auto
    with False "1.prems" show ?thesis by auto
  qed
qed


section \<open>The schema (schema.ts)\<close>

text \<open>
  An optional property is an \<open>option\<close>. An object used as a dictionary
  (\<open>Record<string, FieldDef>\<close>) is the list of its entries in the order in which
  \<open>Object.keys\<close> and \<open>Object.entries\<close> enumerate them; \<open>fields[k]\<close> is \<open>map_of\<close>.
\<close>

datatype FieldType = StringType | NumberType | BooleanType

record FieldDef =
  type :: "FieldType option"
  values' :: "string list option"

record EntityDef =
  name :: string
  relations :: "string list option"
  fields' :: "(string \<times> FieldDef) list option"

record Schema =
  entities :: "EntityDef list"

text \<open>The example schema of schema.ts.\<close>

definition exampleSchema :: Schema where
  "exampleSchema = \<lparr>entities = [
     \<lparr>name = ''user'',
      relations = Some [''posts'', ''comments'', ''profile''],
      fields' = Some [
        (''status'', \<lparr>type = Some StringType, values' = Some [''active'', ''pending'', ''suspended'']\<rparr>),
        (''role'', \<lparr>type = Some StringType, values' = Some [''admin'', ''moderator'', ''user'', ''guest'']\<rparr>),
        (''age'', \<lparr>type = Some NumberType, values' = None\<rparr>),
        (''verified'', \<lparr>type = Some BooleanType, values' = None\<rparr>)]\<rparr>,
     \<lparr>name = ''users'',
      relations = Some [''posts'', ''comments'', ''profile''],
      fields' = Some [
        (''status'', \<lparr>type = Some StringType, values' = Some [''active'', ''pending'', ''suspended'']\<rparr>),
        (''role'', \<lparr>type = Some StringType, values' = Some [''admin'', ''moderator'', ''user'', ''guest'']\<rparr>),
        (''age'', \<lparr>type = Some NumberType, values' = None\<rparr>),
        (''verified'', \<lparr>type = Some BooleanType, values' = None\<rparr>)]\<rparr>,
     \<lparr>name = ''product'',
      relations = Some [''reviews'', ''category''],
      fields' = Some [
        (''category'', \<lparr>type = Some StringType, values' = Some [''archived'', ''electronics'', ''books'']\<rparr>),
        (''price'', \<lparr>type = Some NumberType, values' = None\<rparr>),
        (''stock'', \<lparr>type = Some NumberType, values' = None\<rparr>)]\<rparr>,
     \<lparr>name = ''products'',
      relations = Some [''reviews'', ''category''],
      fields' = Some [
        (''category'', \<lparr>type = Some StringType, values' = Some [''archived'', ''electronics'', ''books'']\<rparr>),
        (''price'', \<lparr>type = Some NumberType, values' = None\<rparr>),
        (''stock'', \<lparr>type = Some NumberType, values' = None\<rparr>)]\<rparr>]\<rparr>"

section \<open>The query tree (parse.ts)\<close>

datatype ParseError = ParseError string

text \<open>
  A number is the value of the decimal literal it was read from; the rounding of
  \<open>parseInt\<close> and \<open>parseFloat\<close> to a double is not modelled.
\<close>

datatype Value = VString string | VNumber rat | VBoolean bool

text \<open>
  \<open>RQLCondition\<close> is an object with the optional properties \<open>and\<close>, \<open>or\<close>, \<open>field\<close>, \<open>op\<close>
  and \<open>value\<close>. The parser builds three shapes of it only: \<open>{field, op, value}\<close>,
  \<open>{and: [...]}\<close> and \<open>{or: [...]}\<close>.
\<close>

datatype RQLCondition =
    Comparison string string Value
  | And "RQLCondition list"
  | Or "RQLCondition list"

datatype Dir = Asc | Desc

record RQLOrderTerm =
  field :: string
  dir :: Dir

text \<open>
  \<open>include\<close> is an object whose keys are all set to \<open>true\<close>: the list of its keys in
  insertion order, each once. \<open>Object.keys\<close> enumerates the keys that are array indices
  first, in ascending numeric order, and then the other keys in insertion order.
\<close>

record RQLQuery =
  entity :: "string option"
  limit :: "int option"
  order :: "RQLOrderTerm list option"
  include' :: "string list option"
  where' :: "RQLCondition option"

definition emptyQuery :: RQLQuery where
  "emptyQuery = \<lparr>entity = None, limit = None, order = None, include' = None, where' = None\<rparr>"

definition indexValue :: "string \<Rightarrow> int" where
  "indexValue k = foldl (\<lambda>acc c. 10 * acc + (of_char c - 48)) 0 k"

definition isArrayIndex :: "string \<Rightarrow> bool" where
  "isArrayIndex k =
     (k \<noteq> [] \<and> list_all (\<lambda>c. c \<in> set ''0123456789'') k \<and> (k = ''0'' \<or> hd k \<noteq> CHR ''0'')
      \<and> indexValue k < 4294967295)"

definition objectKeys :: "string list \<Rightarrow> string list" where
  "objectKeys ks =
     sort_key indexValue (filter isArrayIndex ks) @ filter (\<lambda>k. \<not> isArrayIndex k) ks"

section \<open>Validation against a schema (parse.ts, validateAgainstSchema)\<close>

definition quoted :: "string \<Rightarrow> string" where
  "quoted x = [DQ] @ x @ [DQ]"

text \<open>The names that \<open>collectFields\<close> pushes on \<open>fieldErrors\<close>, in the order of the pushes.\<close>

fun collectFields :: "string list \<Rightarrow> RQLCondition \<Rightarrow> string list" where
  "collectFields allowedFields (Comparison f opr v) =
     (if f \<in> set allowedFields then [] else [f])"
| "collectFields allowedFields (And cs) = concat (map (collectFields allowedFields) cs)"
| "collectFields allowedFields (Or cs) = concat (map (collectFields allowedFields) cs)"

text \<open>\<open>if (rql.entity)\<close>: the property is present and not the empty string.\<close>

definition truthy :: "string option \<Rightarrow> bool" where
  "truthy x = (case x of None \<Rightarrow> False | Some v \<Rightarrow> v \<noteq> [])"

definition showEntity :: "string option \<Rightarrow> string" where
  "showEntity x = (case x of None \<Rightarrow> ''undefined'' | Some v \<Rightarrow> v)"

definition validateRelations :: "RQLQuery \<Rightarrow> EntityDef \<Rightarrow> ParseError + unit" where
  "validateRelations rql entityDef =
     (case include' rql of
        None \<Rightarrow> Inr ()
      | Some keys \<Rightarrow>
          if keys = [] then Inr ()
          else
            let allowed = toSet (case relations entityDef of None \<Rightarrow> [] | Some rs \<Rightarrow> rs)
            in (case find (\<lambda>rel. rel \<notin> set allowed) (objectKeys keys) of
                  None \<Rightarrow> Inr ()
                | Some rel \<Rightarrow>
                    Inl (ParseError (''Unknown relation '' @ quoted rel @ '' for entity ''
                      @ quoted (showEntity (entity rql)) @ ''. Known relations: ''
                      @ join '', '' allowed))))"

definition validateFields :: "RQLQuery \<Rightarrow> EntityDef \<Rightarrow> ParseError + unit" where
  "validateFields rql entityDef =
     (case (where' rql, fields' entityDef) of
        (Some cond, Some fs) \<Rightarrow>
          let allowedFields = map fst fs;
              fieldErrors = collectFields allowedFields cond;
              unknown = toSet fieldErrors
          in if unknown \<noteq> []
             then Inl (ParseError (''Unknown field(s) for entity ''
                    @ quoted (showEntity (entity rql)) @ '': '' @ join '', '' unknown
                    @ ''. Known fields: '' @ join '', '' allowedFields))
             else Inr ()
      | _ \<Rightarrow> Inr ())"

definition validateAgainstSchema :: "RQLQuery \<Rightarrow> Schema \<Rightarrow> ParseError + unit" where
  "validateAgainstSchema rql schema =
     (if entities schema = [] then Inr ()
      else
        let entityNames = toSet (map name (entities schema))
        in if truthy (entity rql) \<and> the (entity rql) \<notin> set entityNames
           then Inl (ParseError (''Unknown entity '' @ quoted (showEntity (entity rql))
                  @ ''. Known entities: '' @ join '', '' entityNames))
           else (case find (\<lambda>e. Some (name e) = entity rql) (entities schema) of
                   None \<Rightarrow> Inr ()
                 | Some entityDef \<Rightarrow>
                     (case validateRelations rql entityDef of
                        Inl e \<Rightarrow> Inl e
                      | Inr u \<Rightarrow> validateFields rql entityDef)))"

section \<open>The clause splitter (parse.ts, splitTopLevel)\<close>

definition OPS :: "string list" where
  "OPS = [''!='', ''<='', ''>='', ''='', ''<'', ''>'']"

text \<open>
  The loop that looks for the closing quote, entered at the character after the opening
  one: the index after the closing quote, or \<open>None\<close> when \<open>foundClosing\<close> stays false.
\<close>

function quotedEnd :: "string \<Rightarrow> nat \<Rightarrow> nat option" where
  "quotedEnd str i =
     (if i < length str then
        (if str ! i = BSL then quotedEnd str (i + 2)
         else if str ! i = DQ then Some (i + 1)
         else quotedEnd str (i + 1))
      else None)"
  by pat_completeness auto
termination
  by (relation "measure (\<lambda>(str, i). length str - i)") auto

declare quotedEnd.simps [simp del]

lemma quotedEnd_gt: "quotedEnd str i = Some j \<Longrightarrow> i < j"
proof (induction str i rule: quotedEnd.induct)
  case (1 str i)
  from "1.prems" have lt: "i < length str"
    by (subst (asm) quotedEnd.simps) (simp split: if_splits)
  show ?case
  proof (cases "str ! i = BSL")
    case True
    with lt "1.prems" have "quotedEnd str (i + 2) = Some j"
      by (subst (asm) quotedEnd.simps) simp
    with "1.IH"(1)[OF lt True] show ?thesis by simp
  next
    case nb: False
    show ?thesis
    proof (cases "str ! i = DQ")
      case True
      with lt nb "1.prems" show ?thesis by (subst (asm) quotedEnd.simps) simp
    next
      case False
      with lt nb "1.prems" have "quotedEnd str (i + 1) = Some j"
        by (subst (asm) quotedEnd.simps) simp
      with "1.IH"(2)[OF lt nb False] show ?thesis by simp
    qed
  qed
qed

text \<open>
  The regular expression \<open>/(\s)(entity|limit|order|include|where):/\<close> matched at index
  \<open>j\<close>; \<open>ci\<close> is its flag \<open>i\<close>, which parse.ts does not set and autocomplete.ts does.
\<close>

definition topLevelKeys :: "string list" where
  "topLevelKeys = [''entity'', ''limit'', ''order'', ''include'', ''where'']"

definition keyMatchAt :: "bool \<Rightarrow> string \<Rightarrow> nat \<Rightarrow> bool" where
  "keyMatchAt ci s j =
     (j < length s \<and> isSpace (s ! j) \<and>
      list_ex (\<lambda>k. (if ci then toLowerCase else id) (slice s (j + 1) (j + 1 + length k + 1))
                     = k @ '':'') topLevelKeys)"

text \<open>\<open>re.lastIndex = i; re.exec(s)\<close>: the index of the first match at or after \<open>i\<close>.\<close>

function regexExec :: "bool \<Rightarrow> string \<Rightarrow> nat \<Rightarrow> nat option" where
  "regexExec ci s i =
     (if i < length s then
        (if keyMatchAt ci s i then Some i else regexExec ci s (i + 1))
      else None)"
  by pat_completeness auto
termination
  by (relation "measure (\<lambda>(ci, s, i). length s - i)") auto

declare regexExec.simps [simp del]

lemma regexExec_ge: "regexExec ci s i = Some j \<Longrightarrow> i \<le> j"
proof (induction ci s i rule: regexExec.induct)
  case (1 ci s i)
  from "1.prems" have lt: "i < length s"
    by (subst (asm) regexExec.simps) (simp split: if_splits)
  show ?case
  proof (cases "keyMatchAt ci s i")
    case True
    with lt "1.prems" show ?thesis by (subst (asm) regexExec.simps) simp
  next
    case False
    with lt "1.prems" have "regexExec ci s (i + 1) = Some j"
      by (subst (asm) regexExec.simps) simp
    with "1.IH"[OF lt False] show ?thesis by simp
  qed
qed

text \<open>
  The loop over the parenthesised block of \<open>where:(\<close>, entered after the opening
  parenthesis with \<open>depth = 1\<close>, and the check of \<open>depth\<close> that follows it.
\<close>

function whereBlockEnd :: "string \<Rightarrow> nat \<Rightarrow> nat \<Rightarrow> ParseError + nat" where
  "whereBlockEnd str i depth =
     (if i < length str \<and> depth > 0 then
        (if str ! i = BSL then whereBlockEnd str (i + 2) depth
         else if str ! i = DQ then
           (case quotedEnd str (i + 1) of
              None \<Rightarrow> Inl (ParseError ''Unclosed quoted string in where clause'')
            | Some j \<Rightarrow> whereBlockEnd str j depth)
         else if str ! i = CHR ''('' then whereBlockEnd str (i + 1) (depth + 1)
         else if str ! i = CHR '')'' then whereBlockEnd str (i + 1) (depth - 1)
         else whereBlockEnd str (i + 1) depth)
      else if depth \<noteq> 0 then Inl (ParseError ''Unbalanced parentheses in where clause'')
      else Inr i)"
  by pat_completeness auto
termination
proof (relation "measure (\<lambda>(str, i, depth). length str - i)")
  fix str :: string and i depth j :: nat
  assume "i < length str \<and> 0 < depth" and "quotedEnd str (i + 1) = Some j"
  then show "((str, j, depth), str, i, depth) \<in> measure (\<lambda>(str, i, depth). length str - i)"
    using quotedEnd_gt[of str "i + 1" j] by auto
qed auto

declare whereBlockEnd.simps [simp del]

lemma whereBlockEnd_ge: "whereBlockEnd str i depth = Inr j \<Longrightarrow> i \<le> j"
proof (induction str i depth rule: whereBlockEnd.induct)
  case (1 str i depth)
  show ?case
  proof (cases "i < length str \<and> depth > 0")
    case False
    with "1.prems" show ?thesis
      by (subst (asm) whereBlockEnd.simps) (simp split: if_splits)
  next
    case c: True
    consider (b) "str ! i = BSL"
      | (q) "str ! i \<noteq> BSL" "str ! i = DQ"
      | (l) "str ! i \<noteq> BSL" "str ! i \<noteq> DQ" "str ! i = CHR ''(''"
      | (r) "str ! i \<noteq> BSL" "str ! i \<noteq> DQ" "str ! i \<noteq> CHR ''(''" "str ! i = CHR '')''"
      | (o) "str ! i \<noteq> BSL" "str ! i \<noteq> DQ" "str ! i \<noteq> CHR ''(''" "str ! i \<noteq> CHR '')''"
      by blast
    then show ?thesis
    proof cases
      case b
      with c "1.prems" have "whereBlockEnd str (i + 2) depth = Inr j"
        by (subst (asm) whereBlockEnd.simps) simp
      with "1.IH"(1)[OF c b] show ?thesis by simp
    next
      case q
      with c "1.prems" obtain k where k: "quotedEnd str (i + 1) = Some k"
        and e: "whereBlockEnd str k depth = Inr j"
        by (subst (asm) whereBlockEnd.simps) (simp split: option.splits)
      from "1.IH"(2)[OF c q k e] quotedEnd_gt[OF k] show ?thesis by simp
    next
      case l
      with c "1.prems" have "whereBlockEnd str (i + 1) (depth + 1) = Inr j"
        by (subst (asm) whereBlockEnd.simps) simp
      with "1.IH"(3)[OF c l] show ?thesis by simp
    next
      case r
      with c "1.prems" have "whereBlockEnd str (i + 1) (depth - 1) = Inr j"
        by (subst (asm) whereBlockEnd.simps) simp
      with "1.IH"(4)[OF c r] show ?thesis by simp
    next
      case o
      with c "1.prems" have "whereBlockEnd str (i + 1) depth = Inr j"
        by (subst (asm) whereBlockEnd.simps) simp
      with "1.IH"(5)[OF c o] show ?thesis by simp
    qed
  qed
qed

text \<open>
  The main loop of \<open>splitTopLevel\<close>. In the branch of \<open>order:\<close> the inner loop that
  skips white space up to \<open>end\<close> has no effect, since \<open>i\<close> is set to \<open>end\<close> after it. When
  \<open>where:\<close> is not followed by a parenthesis, \<open>i\<close> has already moved past \<open>where:\<close> when
  the branch of regular tokens takes its \<open>start\<close>.
\<close>

function splitTopLevel_loop :: "string \<Rightarrow> nat \<Rightarrow> string list \<Rightarrow> ParseError + string list" where
  "splitTopLevel_loop str i0 clauses =
     (if i0 < length str then
        (let i = scanWhile isSpace str i0
         in if i \<ge> length str then Inr clauses
            else if str ! i = DQ then
              (case quotedEnd str (i + 1) of
                 None \<Rightarrow> Inl (ParseError ''Unclosed quoted string'')
               | Some j \<Rightarrow> splitTopLevel_loop str j (clauses @ [slice str i j]))
            else if slice str i (i + 6) = ''order:'' then
              (let end = (case regexExec False str (i + 6) of
                            Some m \<Rightarrow> m | None \<Rightarrow> length str)
               in splitTopLevel_loop str end (clauses @ [slice str i end]))
            else if slice str i (i + 6) = ''where:'' \<and> charAt str (i + 6) = Some (CHR ''('') then
              (case whereBlockEnd str (i + 7) 1 of
                 Inl e \<Rightarrow> Inl e
               | Inr j \<Rightarrow> splitTopLevel_loop str j (clauses @ [slice str i j]))
            else
              (let start = (if slice str i (i + 6) = ''where:'' then i + 6 else i);
                   j = scanWhile (\<lambda>c. \<not> isSpace c) str start
               in splitTopLevel_loop str j (clauses @ [slice str start j])))
      else Inr clauses)"
  by pat_completeness auto
termination
proof (relation "measure (\<lambda>(str, i, clauses). length str - i)")
  fix str :: string and i0 i j :: nat
  assume a: "i0 < length str" "i = scanWhile isSpace str i0" "\<not> length str \<le> i"
    and q: "quotedEnd str (i + 1) = Some j"
  have "i0 \<le> i" using a(2) scanWhile_ge by simp
  then show "((str, j, clauses @ [slice str i j]), str, i0, clauses) \<in> measure (\<lambda>(str, i, clauses). length str - i)" for clauses
    using quotedEnd_gt[OF q] a by auto
next
  fix str :: string and i0 i e :: nat
  assume a: "i0 < length str" "i = scanWhile isSpace str i0" "\<not> length str \<le> i"
    and o: "slice str i (i + 6) = ''order:''"
    and e: "e = (case regexExec False str (i + 6) of None \<Rightarrow> length str | Some m \<Rightarrow> m)"
  have "i0 \<le> i" using a(2) scanWhile_ge by simp
  moreover have "i < e" using e a regexExec_ge[of False str "i + 6"]
    by (auto split: option.splits)
  ultimately show "((str, e, clauses @ [slice str i e]), str, i0, clauses) \<in> measure (\<lambda>(str, i, clauses). length str - i)" for clauses
    using a by auto
next
  fix str :: string and i0 i j :: nat
  assume a: "i0 < length str" "i = scanWhile isSpace str i0" "\<not> length str \<le> i"
    and w: "whereBlockEnd str (i + 7) 1 = Inr j"
  have "i0 \<le> i" using a(2) scanWhile_ge by simp
  then show "((str, j, clauses @ [slice str i j]), str, i0, clauses) \<in> measure (\<lambda>(str, i, clauses). length str - i)" for clauses
    using whereBlockEnd_ge[OF w] a by auto
next
  fix str :: string and i0 i start j :: nat
  assume a: "i0 < length str" "i = scanWhile isSpace str i0" "\<not> length str \<le> i"
    and st: "start = (if slice str i (i + 6) = ''where:'' then i + 6 else i)"
    and j: "j = scanWhile (\<lambda>c. \<not> isSpace c) str start"
  have "i0 \<le> i" using a(2) scanWhile_ge by simp
  moreover have "\<not> isSpace (str ! i)" using a scanWhile_stop[of isSpace str i0] by simp
  then have "i < scanWhile (\<lambda>c. \<not> isSpace c) str i" using a scanWhile_gt[of i str "\<lambda>c. \<not> isSpace c"] by simp
  then have "i < j" using st j scanWhile_ge[of "i + 6" "\<lambda>c. \<not> isSpace c" str] by (auto split: if_splits)
  ultimately show "((str, j, clauses @ [slice str start j]), str, i0, clauses) \<in> measure (\<lambda>(str, i, clauses). length str - i)" for clauses
    using a by auto
qed simp

declare splitTopLevel_loop.simps [simp del]

definition splitTopLevel :: "string \<Rightarrow> ParseError + string list" where
  "splitTopLevel str = splitTopLevel_loop str 0 []"

section \<open>The where expression (parse.ts, unwrapWhere, tokenizeWhere, parseWhere)\<close>

text \<open>The loop of \<open>unwrapWhere\<close>: the final \<open>depth\<close>, or the error thrown on the way.\<close>

function unwrapWhere_loop :: "string \<Rightarrow> nat \<Rightarrow> int \<Rightarrow> ParseError + int" where
  "unwrapWhere_loop s i depth0 =
     (if i < length s then
        (let depth = (if s ! i = CHR ''('' then depth0 + 1
                      else if s ! i = CHR '')'' then depth0 - 1 else depth0)
         in if depth < 0 then Inl (ParseError ''Unbalanced parentheses in where clause'')
            else if depth = 0 \<and> i < length s - 1
            then Inl (ParseError ''Unbalanced or invalid where expression'')
            else unwrapWhere_loop s (i + 1) depth)
      else Inr depth0)"
  by pat_completeness auto
termination
  by (relation "measure (\<lambda>(s, i, depth). length s - i)") auto

declare unwrapWhere_loop.simps [simp del]

definition unwrapWhere :: "string \<Rightarrow> ParseError + string" where
  "unwrapWhere value =
     (let s = trim value
      in if startsWith s ''('' then
           (case unwrapWhere_loop s 0 0 of
              Inl e \<Rightarrow> Inl e
            | Inr depth \<Rightarrow>
                if depth \<noteq> 0 then Inl (ParseError ''Unbalanced parentheses in where clause'')
                else if \<not> endsWith s '')''
                then Inl (ParseError ''Unbalanced parentheses in where clause'')
                else Inr (trim (slice s 1 (length s - 1))))
         else Inr s)"

datatype WhereToken =
    TParen string
  | TKeyword string
  | TOp string
  | TIdent string string
  | TString string
  | TNumber rat
  | TBoolean bool

text \<open>
  The loop that reads a quoted string, entered after the opening quote with \<open>val = ""\<close>:
  the value and the index after the closing quote, or \<open>None\<close> when \<open>foundClosing\<close> stays
  false. After a backslash at the end of the input \<open>s[i]\<close> is \<open>undefined\<close>, and \<open>+=\<close>
  appends the text \<open>undefined\<close>.
\<close>

definition unescape :: "char option \<Rightarrow> string" where
  "unescape c =
     (if c = Some DQ then [DQ] else if c = Some BSL then [BSL]
      else (case c of None \<Rightarrow> ''undefined'' | Some x \<Rightarrow> [x]))"

function readString :: "string \<Rightarrow> nat \<Rightarrow> string \<Rightarrow> (string \<times> nat) option" where
  "readString s i val =
     (if i < length s then
        (if s ! i = BSL then readString s (i + 2) (val @ unescape (charAt s (i + 1)))
         else if s ! i = DQ then Some (val, i + 1)
         else readString s (i + 1) (val @ [s ! i]))
      else None)"
  by pat_completeness auto
termination
  by (relation "measure (\<lambda>(s, i, val). length s - i)") auto

declare readString.simps [simp del]

lemma readString_gt: "readString s i val = Some (v, j) \<Longrightarrow> i < j"
proof (induction s i val rule: readString.induct)
  case (1 s i val)
  from "1.prems" have lt: "i < length s"
    by (subst (asm) readString.simps) (simp split: if_splits)
  show ?case
  proof (cases "s ! i = BSL")
    case True
    with lt "1.prems" have "readString s (i + 2) (val @ unescape (charAt s (i + 1))) = Some (v, j)"
      by (subst (asm) readString.simps) simp
    with "1.IH"(1)[OF lt True] show ?thesis by simp
  next
    case nb: False
    show ?thesis
    proof (cases "s ! i = DQ")
      case True
      with lt nb "1.prems" show ?thesis by (subst (asm) readString.simps) simp
    next
      case False
      with lt nb "1.prems" have "readString s (i + 1) (val @ [s ! i]) = Some (v, j)"
        by (subst (asm) readString.simps) simp
      with "1.IH"(2)[OF lt nb False] show ?thesis by simp
    qed
  qed
qed

text \<open>The character class \<open>[\s()"=<>!]\<close>, negated: the characters of a word.\<close>

definition wordChar :: "char \<Rightarrow> bool" where
  "wordChar c = (\<not> isSpace c \<and> c \<notin> set [CHR ''('', CHR '')'', DQ, CHR ''='', CHR ''<'', CHR ''>'', CHR ''!''])"

text \<open>The regular expression \<open>/^-?\d+(\.\d+)?$/\<close>.\<close>

definition allDigits :: "string \<Rightarrow> bool" where
  "allDigits ds = (ds \<noteq> [] \<and> list_all isDigit ds)"

definition isNumberLit :: "string \<Rightarrow> bool" where
  "isNumberLit raw =
     (let body = (case raw of c # cs \<Rightarrow> if c = CHR ''-'' then cs else raw | [] \<Rightarrow> raw)
      in case indexOf body (CHR ''.'') of
           None \<Rightarrow> allDigits body
         | Some k \<Rightarrow> allDigits (take k body) \<and> allDigits (drop (k + 1) body))"

definition digitsValue :: "string \<Rightarrow> nat" where
  "digitsValue ds = foldl (\<lambda>acc c. 10 * acc + (of_char c - 48)) 0 ds"

text \<open>
  \<open>raw.includes(".") ? parseFloat(raw) : parseInt(raw, 10)\<close> on a \<open>raw\<close> that matches the
  regular expression above.
\<close>

definition numberValue :: "string \<Rightarrow> rat" where
  "numberValue raw =
     (let neg = (case raw of c # cs \<Rightarrow> c = CHR ''-'' | [] \<Rightarrow> False);
          body = (if neg then tl raw else raw);
          mag = (case indexOf body (CHR ''.'') of
                   None \<Rightarrow> of_nat (digitsValue body)
                 | Some k \<Rightarrow> of_nat (digitsValue (take k body))
                     + of_nat (digitsValue (drop (k + 1) body)) / 10 ^ (length body - (k + 1)))
      in if neg then - mag else mag)"

text \<open>The token pushed for the word \<open>raw\<close>.\<close>

definition wordToken :: "string \<Rightarrow> WhereToken" where
  "wordToken raw =
     (if toLowerCase raw = ''and'' \<or> toLowerCase raw = ''or'' then TKeyword (toLowerCase raw)
      else if toLowerCase raw = ''true'' then TBoolean True
      else if toLowerCase raw = ''false'' then TBoolean False
      else if isNumberLit raw then TNumber (numberValue raw)
      else TIdent raw raw)"

lemma OPS_nonempty: "find P OPS = Some opr \<Longrightarrow> 0 < length opr"
  by (auto simp: OPS_def split: if_splits)

lemma slice_nonempty: "slice s i j \<noteq> [] \<Longrightarrow> i < j"
  by (cases "i < j") (auto simp: slice_def)

function tokenizeWhere_loop :: "string \<Rightarrow> nat \<Rightarrow> WhereToken list \<Rightarrow> ParseError + WhereToken list" where
  "tokenizeWhere_loop s i0 tokens =
     (if i0 < length s then
        (let i = scanWhile isSpace s i0
         in if i \<ge> length s then Inr tokens
            else if s ! i = CHR ''('' then tokenizeWhere_loop s (i + 1) (tokens @ [TParen ''(''])
            else if s ! i = CHR '')'' then tokenizeWhere_loop s (i + 1) (tokens @ [TParen '')''])
            else if s ! i = DQ then
              (case readString s (i + 1) [] of
                 None \<Rightarrow> Inl (ParseError ''Unclosed quoted string in where clause'')
               | Some (val, j) \<Rightarrow> tokenizeWhere_loop s j (tokens @ [TString val]))
            else
              (case find (\<lambda>opr. slice s i (i + length opr) = opr) OPS of
                 Some opMatch \<Rightarrow>
                   tokenizeWhere_loop s (i + length opMatch) (tokens @ [TOp opMatch])
               | None \<Rightarrow>
                   (let j = scanWhile wordChar s i; raw = slice s i j
                    in if raw = [] then Inl (ParseError ''Unexpected character in where clause'')
                       else tokenizeWhere_loop s j (tokens @ [wordToken raw]))))
      else Inr tokens)"
  by pat_completeness auto
termination
proof (relation "measure (\<lambda>(s, i, tokens). length s - i)")
  fix s :: string and i0 i :: nat and tokens :: "WhereToken list"
  assume a: "i0 < length s" "i = scanWhile isSpace s i0" "\<not> length s \<le> i"
  have le: "i0 \<le> i" using a(2) scanWhile_ge by simp
  show "((s, i + 1, tokens @ [TParen ''(''] ), s, i0, tokens) \<in> measure (\<lambda>(s, i, tokens). length s - i)"
    using le a by auto
next
  fix s :: string and i0 i :: nat and tokens :: "WhereToken list"
  assume a: "i0 < length s" "i = scanWhile isSpace s i0" "\<not> length s \<le> i"
  have le: "i0 \<le> i" using a(2) scanWhile_ge by simp
  show "((s, i + 1, tokens @ [TParen '')''] ), s, i0, tokens) \<in> measure (\<lambda>(s, i, tokens). length s - i)"
    using le a by auto
next
  fix s :: string and i0 i j :: nat and tokens :: "WhereToken list" and val x2
  assume a: "i0 < length s" "i = scanWhile isSpace s i0" "\<not> length s \<le> i"
    and r: "readString s (i + 1) [] = Some x2" "(val, j) = x2"
  have le: "i0 \<le> i" using a(2) scanWhile_ge by simp
  show "((s, j, tokens @ [TString val]), s, i0, tokens) \<in> measure (\<lambda>(s, i, tokens). length s - i)"
    using le a readString_gt[of s "i + 1" "[]" val j] r by auto
next
  fix s :: string and i0 i :: nat and tokens :: "WhereToken list" and opMatch
  assume a: "i0 < length s" "i = scanWhile isSpace s i0" "\<not> length s \<le> i"
    and f: "find (\<lambda>opr. slice s i (i + length opr) = opr) OPS = Some opMatch"
  have le: "i0 \<le> i" using a(2) scanWhile_ge by simp
  show "((s, i + length opMatch, tokens @ [TOp opMatch]), s, i0, tokens) \<in> measure (\<lambda>(s, i, tokens). length s - i)"
  proof -
    obtain n where n: "length opMatch = n" "0 < n" using OPS_nonempty[OF f] by simp
    have "length s - (i + n) < length s - i0" using le a n(2) by arith
    then show ?thesis using n(1) by simp
  qed
next
  fix s :: string and i0 i j :: nat and tokens :: "WhereToken list" and raw
  assume a: "i0 < length s" "i = scanWhile isSpace s i0" "\<not> length s \<le> i"
    and w: "j = scanWhile wordChar s i" "raw = slice s i j" "raw \<noteq> []"
  have le: "i0 \<le> i" using a(2) scanWhile_ge by simp
  show "((s, j, tokens @ [wordToken raw]), s, i0, tokens) \<in> measure (\<lambda>(s, i, tokens). length s - i)"
    using le a w slice_nonempty[of s i j] by auto
qed simp

declare tokenizeWhere_loop.simps [simp del]

definition tokenizeWhere :: "string \<Rightarrow> ParseError + WhereToken list" where
  "tokenizeWhere inner = tokenizeWhere_loop inner 0 []"

text \<open>
  The recursive-descent parser of \<open>parseWhere\<close>. Its four closures share the array
  \<open>tokens\<close> and the variable \<open>pos\<close>: each function takes \<open>pos\<close> and returns its new value
  with the result; \<open>null\<close> is \<open>None\<close>. \<open>parseAnd_loop\<close> is the \<open>while\<close> loop of \<open>parseAnd\<close>.
\<close>

type_synonym parsed = "ParseError + (RQLCondition option \<times> nat)"

definition isOrKeyword :: "WhereToken \<Rightarrow> bool" where
  "isOrKeyword t = (case t of TKeyword v \<Rightarrow> v = ''or'' \<or> v = ''OR'' | _ \<Rightarrow> False)"

definition isAndKeyword :: "WhereToken \<Rightarrow> bool" where
  "isAndKeyword t = (case t of TKeyword v \<Rightarrow> v = ''and'' \<or> v = ''AND'' | _ \<Rightarrow> False)"

definition parseComparison :: "WhereToken list \<Rightarrow> nat \<Rightarrow> parsed" where
  "parseComparison tokens pos =
     (if pos \<ge> length tokens then Inr (None, pos)
      else
        (case (case tokens ! pos of
                 TIdent v raw \<Rightarrow> Some raw
               | TString v \<Rightarrow> Some v
               | _ \<Rightarrow> None) of
           None \<Rightarrow> Inr (None, pos)
         | Some fld \<Rightarrow>
             let pos1 = pos + 1;
                 (opr, pos2) =
                   (if pos1 < length tokens
                    then (case tokens ! pos1 of TOp v \<Rightarrow> (v, pos1 + 1) | _ \<Rightarrow> (''='', pos1))
                    else (''='', pos1))
             in if pos2 \<ge> length tokens
                then Inl (ParseError ''Incomplete comparison in where clause'')
                else
                  (case (case tokens ! pos2 of
                           TIdent v raw \<Rightarrow> Some (VString raw)
                         | TString v \<Rightarrow> Some (VString v)
                         | TNumber n \<Rightarrow> Some (VNumber n)
                         | TBoolean b \<Rightarrow> Some (VBoolean b)
                         | _ \<Rightarrow> None) of
                     None \<Rightarrow> Inl (ParseError ''Invalid value in where comparison'')
                   | Some v \<Rightarrow> Inr (Some (Comparison fld opr v), pos2 + 1))))"

definition orChildren :: "RQLCondition \<Rightarrow> RQLCondition list" where
  "orChildren c = (case c of Or cs \<Rightarrow> cs | _ \<Rightarrow> [c])"

definition andChildren :: "RQLCondition \<Rightarrow> RQLCondition list" where
  "andChildren c = (case c of And cs \<Rightarrow> cs | _ \<Rightarrow> [c])"

function (domintros) parseOr :: "WhereToken list \<Rightarrow> nat \<Rightarrow> parsed"
  and parseAnd :: "WhereToken list \<Rightarrow> nat \<Rightarrow> parsed"
  and parseAnd_loop :: "WhereToken list \<Rightarrow> nat \<Rightarrow> RQLCondition list \<Rightarrow> ParseError + (RQLCondition list \<times> nat)"
  and parsePrimary :: "WhereToken list \<Rightarrow> nat \<Rightarrow> parsed"
where
  "parseOr tokens pos =
     (case parseAnd tokens pos of
        Inl e \<Rightarrow> Inl e
      | Inr (left, pos1) \<Rightarrow>
          if pos1 \<ge> length tokens then Inr (left, pos1)
          else if isOrKeyword (tokens ! pos1) then
            (case left of
               None \<Rightarrow> Inl (ParseError ''Invalid where: OR with no left side'')
             | Some l \<Rightarrow>
                 (case parseOr tokens (pos1 + 1) of
                    Inl e \<Rightarrow> Inl e
                  | Inr (None, pos2) \<Rightarrow> Inl (ParseError ''Invalid where: OR with no right side'')
                  | Inr (Some r, pos2) \<Rightarrow> Inr (Some (Or (orChildren l @ orChildren r)), pos2)))
          else Inr (left, pos1))"
| "parseAnd tokens pos =
     (case parsePrimary tokens pos of
        Inl e \<Rightarrow> Inl e
      | Inr (None, pos1) \<Rightarrow> Inr (None, pos1)
      | Inr (Some term, pos1) \<Rightarrow>
          (case parseAnd_loop tokens pos1 [term] of
             Inl e \<Rightarrow> Inl e
           | Inr (terms, pos2) \<Rightarrow>
               if length terms = 1 then Inr (Some (terms ! 0), pos2)
               else Inr (Some (And (concat (map andChildren terms))), pos2)))"
| "parseAnd_loop tokens pos terms =
     (if pos < length tokens then
        (if isOrKeyword (tokens ! pos) then Inr (terms, pos)
         else if isAndKeyword (tokens ! pos) then
           (case parsePrimary tokens (pos + 1) of
              Inl e \<Rightarrow> Inl e
            | Inr (None, pos1) \<Rightarrow> Inl (ParseError ''Invalid where: AND with no right side'')
            | Inr (Some term, pos1) \<Rightarrow> parseAnd_loop tokens pos1 (terms @ [term]))
         else
           (case parsePrimary tokens pos of
              Inl e \<Rightarrow> Inl e
            | Inr (None, pos1) \<Rightarrow> Inr (terms, pos1)
            | Inr (Some term, pos1) \<Rightarrow> parseAnd_loop tokens pos1 (terms @ [term])))
      else Inr (terms, pos))"
| "parsePrimary tokens pos =
     (if pos \<ge> length tokens then Inr (None, pos)
      else if tokens ! pos = TParen ''('' then
        (case parseOr tokens (pos + 1) of
           Inl e \<Rightarrow> Inl e
         | Inr (innerCond, pos1) \<Rightarrow>
             if pos1 \<ge> length tokens \<or> tokens ! pos1 \<noteq> TParen '')''
             then Inl (ParseError ''Missing closing parenthesis'')
             else (case innerCond of
                     None \<Rightarrow> Inl (ParseError ''Empty parenthetical expression'')
                   | Some c \<Rightarrow> Inr (Some c, pos1 + 1)))
      else parseComparison tokens pos)"
  by pat_completeness auto

lemma parseComparison_pos:
  "parseComparison tokens pos = Inr (r, p) \<Longrightarrow> pos \<le> p \<and> (r \<noteq> None \<longrightarrow> pos < p)"
  unfolding parseComparison_def
  by (auto simp: Let_def split: if_splits option.splits WhereToken.splits prod.splits)

lemma parse_pos_dom:
  "parseOr_parseAnd_parseAnd_loop_parsePrimary_dom (Inl (Inl (tokens, pos))) \<Longrightarrow>
     \<forall>r p. parseOr tokens pos = Inr (r, p) \<longrightarrow> pos \<le> p \<and> (r \<noteq> None \<longrightarrow> pos < p)"
  "parseOr_parseAnd_parseAnd_loop_parsePrimary_dom (Inl (Inr (tokens, pos))) \<Longrightarrow>
     \<forall>r p. parseAnd tokens pos = Inr (r, p) \<longrightarrow> pos \<le> p \<and> (r \<noteq> None \<longrightarrow> pos < p)"
  "parseOr_parseAnd_parseAnd_loop_parsePrimary_dom (Inr (Inl (tokens, pos, terms))) \<Longrightarrow>
     \<forall>ts p. parseAnd_loop tokens pos terms = Inr (ts, p) \<longrightarrow> pos \<le> p"
  "parseOr_parseAnd_parseAnd_loop_parsePrimary_dom (Inr (Inr (tokens, pos))) \<Longrightarrow>
     \<forall>r p. parsePrimary tokens pos = Inr (r, p) \<longrightarrow> pos \<le> p \<and> (r \<noteq> None \<longrightarrow> pos < p)"
proof (induct rule: parseOr_parseAnd_parseAnd_loop_parsePrimary.pinduct)
  case (1 tokens pos)
  note dom = "1.hyps"(1) and IHand = "1.hyps"(2) and IHor = "1.hyps"(3)
  show ?case
  proof (intro allI impI)
    fix r p
    assume res: "parseOr tokens pos = Inr (r, p)"
    then obtain left pos1 where a: "parseAnd tokens pos = Inr (left, pos1)"
      by (auto simp: parseOr.psimps[OF dom] split: if_splits sum.splits)
    have p1: "pos \<le> pos1 \<and> (left \<noteq> None \<longrightarrow> pos < pos1)" using IHand a by blast
    show "pos \<le> p \<and> (r \<noteq> None \<longrightarrow> pos < p)"
    proof (cases "length tokens \<le> pos1 \<or> \<not> isOrKeyword (tokens ! pos1)")
      case True
      then have "r = left \<and> p = pos1" using res a
        by (auto simp: parseOr.psimps[OF dom] split: if_splits)
      then show ?thesis using p1 by simp
    next
      case False
      then obtain l r' where l: "left = Some l"
        and o: "parseOr tokens (pos1 + 1) = Inr (Some r', p)"
        using res a
        by (auto simp: parseOr.psimps[OF dom] split: if_splits option.splits sum.splits)
      have "pos1 + 1 \<le> p" using IHor[OF a refl _ _ l] False o by blast
      then show ?thesis using p1 by simp
    qed
  qed
next
  case (2 tokens pos)
  note dom = "2.hyps"(1) and IHprim = "2.hyps"(2) and IHloop = "2.hyps"(3)
  show ?case
  proof (intro allI impI)
    fix r p
    assume res: "parseAnd tokens pos = Inr (r, p)"
    then obtain t pos1 where a: "parsePrimary tokens pos = Inr (t, pos1)"
      by (auto simp: parseAnd.psimps[OF dom] split: if_splits sum.splits)
    have p1: "pos \<le> pos1 \<and> (t \<noteq> None \<longrightarrow> pos < pos1)" using IHprim a by blast
    show "pos \<le> p \<and> (r \<noteq> None \<longrightarrow> pos < p)"
    proof (cases t)
      case None
      then have "r = None \<and> p = pos1" using res a by (auto simp: parseAnd.psimps[OF dom] split: if_splits)
      then show ?thesis using p1 by simp
    next
      case (Some c)
      then obtain ts where lp: "parseAnd_loop tokens pos1 [c] = Inr (ts, p)"
        using res a
        by (auto simp: parseAnd.psimps[OF dom] split: sum.splits if_splits)
      have "pos1 \<le> p" using IHloop[OF a refl Some] lp by blast
      then show ?thesis using p1 Some by simp
    qed
  qed
next
  case (3 tokens pos terms)
  note dom = "3.hyps"(1) and IHp1 = "3.hyps"(2) and IHl1 = "3.hyps"(3)
    and IHp2 = "3.hyps"(4) and IHl2 = "3.hyps"(5)
  show ?case
  proof (intro allI impI)
    fix ts p
    assume res: "parseAnd_loop tokens pos terms = Inr (ts, p)"
    show "pos \<le> p"
    proof (cases "pos < length tokens \<and> \<not> isOrKeyword (tokens ! pos)")
      case False
      then have "p = pos" using res
        by (auto simp: parseAnd_loop.psimps[OF dom] split: if_splits)
      then show ?thesis by simp
    next
      case c: True
      show ?thesis
      proof (cases "isAndKeyword (tokens ! pos)")
        case True
        then obtain t pos1 where a: "parsePrimary tokens (pos + 1) = Inr (Some t, pos1)"
          and lp: "parseAnd_loop tokens pos1 (terms @ [t]) = Inr (ts, p)"
          using res c
          by (auto simp: parseAnd_loop.psimps[OF dom] split: if_splits sum.splits option.splits)
        have "pos + 1 \<le> pos1" using IHp1 c True a by blast
        moreover have "pos1 \<le> p" using IHl1[OF _ _ True a refl refl] c lp by blast
        ultimately show ?thesis by simp
      next
        case False
        then obtain t pos1 where a: "parsePrimary tokens pos = Inr (t, pos1)"
          using res c
          by (auto simp: parseAnd_loop.psimps[OF dom] split: if_splits sum.splits)
        have p1: "pos \<le> pos1" using IHp2 c False a by blast
        show ?thesis
        proof (cases t)
          case None
          then have "p = pos1" using res c False a
            by (auto simp: parseAnd_loop.psimps[OF dom] split: if_splits)
          then show ?thesis using p1 by simp
        next
          case (Some t')
          then have lp: "parseAnd_loop tokens pos1 (terms @ [t']) = Inr (ts, p)"
            using res c False a by (auto simp: parseAnd_loop.psimps[OF dom] split: if_splits)
          have "pos1 \<le> p" using IHl2[OF _ _ False a refl Some] c lp by blast
          then show ?thesis using p1 by simp
        qed
      qed
    qed
  qed
next
  case (4 tokens pos)
  note dom = "4.hyps"(1) and IHor = "4.hyps"(2)
  show ?case
  proof (intro allI impI)
    fix r p
    assume res: "parsePrimary tokens pos = Inr (r, p)"
    show "pos \<le> p \<and> (r \<noteq> None \<longrightarrow> pos < p)"
    proof (cases "length tokens \<le> pos")
      case True
      then have "r = None \<and> p = pos" using res by (auto simp: parsePrimary.psimps[OF dom] split: if_splits)
      then show ?thesis by simp
    next
      case nl: False
      show ?thesis
      proof (cases "tokens ! pos = TParen ''(''")
        case True
        then obtain c pos1 where o: "parseOr tokens (pos + 1) = Inr (c, pos1)"
          and p: "p = pos1 + 1"
          using res nl
          by (auto simp: parsePrimary.psimps[OF dom] split: sum.splits if_splits option.splits)
        have "pos + 1 \<le> pos1" using IHor[OF nl True] o by blast
        then show ?thesis using p by simp
      next
        case False
        then have "parseComparison tokens pos = Inr (r, p)" using res nl
          by (auto simp: parsePrimary.psimps[OF dom] split: if_splits)
        then show ?thesis by (rule parseComparison_pos)
      qed
    qed
  qed
qed

termination parseOr
proof (relation "measure (\<lambda>x. case x of
          Inl (Inl (tokens, pos)) \<Rightarrow> 4 * (length tokens - pos) + 3
        | Inl (Inr (tokens, pos)) \<Rightarrow> 4 * (length tokens - pos) + 2
        | Inr (Inl (tokens, pos, terms)) \<Rightarrow> 4 * (length tokens - pos) + 1
        | Inr (Inr (tokens, pos)) \<Rightarrow> 4 * (length tokens - pos))")
  show "wf (measure (\<lambda>x. case x of
          Inl (Inl (tokens, pos)) \<Rightarrow> 4 * (length tokens - pos) + 3
        | Inl (Inr (tokens, pos)) \<Rightarrow> 4 * (length tokens - pos) + 2
        | Inr (Inl (tokens, pos, terms)) \<Rightarrow> 4 * (length tokens - pos) + 1
        | Inr (Inr (tokens, pos)) \<Rightarrow> 4 * (length tokens - pos)))" by simp
qed (auto dest!: parse_pos_dom[rule_format])

declare parseOr.simps [simp del] parseAnd.simps [simp del]
  parseAnd_loop.simps [simp del] parsePrimary.simps [simp del]

definition parseWhere :: "string \<Rightarrow> ParseError + RQLCondition" where
  "parseWhere inner =
     (case tokenizeWhere inner of
        Inl e \<Rightarrow> Inl e
      | Inr tokens \<Rightarrow>
          if length tokens = 0 then Inl (ParseError ''Empty where clause'')
          else (case parseOr tokens 0 of
                  Inl e \<Rightarrow> Inl e
                | Inr (result, pos) \<Rightarrow>
                    if pos < length tokens
                    then Inl (ParseError ''Unbalanced or invalid where expression'')
                    else (case result of
                            None \<Rightarrow> Inl (ParseError ''Empty or invalid where expression'')
                          | Some c \<Rightarrow> Inr c)))"

section \<open>The parser (parse.ts, parsePlainText)\<close>

text \<open>
  \<open>parseInt(value, 10)\<close>: leading white space, an optional sign and the longest run of
  digits; \<open>None\<close> is \<open>NaN\<close>.
\<close>

definition parseInt :: "string \<Rightarrow> int option" where
  "parseInt value =
     (let s = trimStart value;
          neg = (case s of c # cs \<Rightarrow> c = CHR ''-'' | [] \<Rightarrow> False);
          signed = (case s of c # cs \<Rightarrow> c = CHR ''-'' \<or> c = CHR ''+'' | [] \<Rightarrow> False);
          ds = takeWhile isDigit (if signed then tl s else s)
      in if ds = [] then None
         else Some (if neg then - int (digitsValue ds) else int (digitsValue ds)))"

text \<open>The body of the loop over the parts of an \<open>order\<close> value, and the loop.\<close>

definition parseOrderTerm :: "string \<Rightarrow> ParseError + RQLOrderTerm" where
  "parseOrderTerm part =
     (let t = trim part
      in if t = [] then Inl (ParseError ''Empty term in order list'')
         else
           let tokens = splitSpaces t;
               fld = tokens ! 0;
               fieldLower = toLowerCase fld
           in if fieldLower = ''asc'' \<or> fieldLower = ''desc''
              then Inl (ParseError (''Invalid order term '' @ quoted fld
                     @ '': order must be a field name (e.g. order:name or order:created_at desc), not a direction alone.''))
              else if length tokens \<ge> 2 then
                (let d = toLowerCase (tokens ! 1)
                 in if d = ''asc'' then Inr \<lparr>field = fld, dir = Asc\<rparr>
                    else if d = ''desc'' then Inr \<lparr>field = fld, dir = Desc\<rparr>
                    else Inl (ParseError (''Invalid order direction '' @ quoted (tokens ! 1)
                           @ ''. Use asc or desc.'')))
              else Inr \<lparr>field = fld, dir = Asc\<rparr>)"

fun parseOrderTerms :: "string list \<Rightarrow> RQLOrderTerm list \<Rightarrow> ParseError + RQLOrderTerm list" where
  "parseOrderTerms [] terms = Inr terms"
| "parseOrderTerms (part # parts) terms =
     (case parseOrderTerm part of
        Inl e \<Rightarrow> Inl e
      | Inr t \<Rightarrow> parseOrderTerms parts (terms @ [t]))"

text \<open>
  The loop over the parts of an \<open>include\<close> value; \<open>keys\<close> are the keys set so far. The
  assignment \<open>out.include["__proto__"] = true\<close> reaches the setter of \<open>Object.prototype\<close>,
  which ignores a value that is no object, and sets no key.
\<close>

fun parseInclude :: "string list \<Rightarrow> string list \<Rightarrow> ParseError + string list" where
  "parseInclude [] keys = Inr keys"
| "parseInclude (rel # rels) keys =
     (let r = trim rel
      in if r = [] then Inl (ParseError ''Empty relation name in include list'')
         else parseInclude rels
                (if r = ''__proto__'' \<or> r \<in> set keys then keys else keys @ [r]))"

text \<open>The body of the loop over the clauses, and the loop.\<close>

definition parseClause :: "string \<Rightarrow> RQLQuery \<Rightarrow> ParseError + RQLQuery" where
  "parseClause clause out =
     (case indexOf clause (CHR '':'') of
        None \<Rightarrow>
          Inl (ParseError (''Invalid clause '' @ quoted clause
            @ '': expected key:value format (e.g., entity:users). ''
            @ ''Valid keys: entity, limit, order, include, where''))
      | Some colon \<Rightarrow>
          let key = toLowerCase (trim (slice clause 0 colon));
              value = trim (sliceFrom clause (colon + 1))
          in if key = ''entity'' then
               (if entity out \<noteq> None then Inl (ParseError ''Duplicate top-level key: entity'')
                else if value = [] then Inl (ParseError ''entity value must be non-empty'')
                else Inr (out\<lparr>entity := Some value\<rparr>))
             else if key = ''limit'' then
               (if limit out \<noteq> None then Inl (ParseError ''Duplicate top-level key: limit'')
                else if value = [] then Inl (ParseError ''limit value must be non-empty'')
                else (case parseInt value of
                        None \<Rightarrow> Inl (ParseError ''limit must be a valid integer'')
                      | Some n \<Rightarrow>
                          if n < 0 then Inl (ParseError ''limit must be non-negative'')
                          else if \<not> allDigits (trim value)
                          then Inl (ParseError ''limit must be an integer without decimals'')
                          else Inr (out\<lparr>limit := Some n\<rparr>)))
             else if key = ''order'' then
               (if order out \<noteq> None then Inl (ParseError ''Duplicate top-level key: order'')
                else if value = [] then Inl (ParseError ''order value must be non-empty'')
                else (case parseOrderTerms (splitChar (CHR '','') value) [] of
                        Inl e \<Rightarrow> Inl e
                      | Inr terms \<Rightarrow> Inr (out\<lparr>order := Some terms\<rparr>)))
             else if key = ''include'' then
               (if include' out \<noteq> None then Inl (ParseError ''Duplicate top-level key: include'')
                else if value = [] then Inl (ParseError ''include value must be non-empty'')
                else (case parseInclude (splitChar (CHR '','') value) [] of
                        Inl e \<Rightarrow> Inl e
                      | Inr keys \<Rightarrow> Inr (out\<lparr>include' := Some keys\<rparr>)))
             else if key = ''where'' then
               (if where' out \<noteq> None then Inl (ParseError ''Duplicate top-level key: where'')
                else if value = [] then Inl (ParseError ''where value must be non-empty'')
                else (case unwrapWhere value of
                        Inl e \<Rightarrow> Inl e
                      | Inr inner \<Rightarrow>
                          (case parseWhere inner of
                             Inl e \<Rightarrow> Inl e
                           | Inr c \<Rightarrow> Inr (out\<lparr>where' := Some c\<rparr>))))
             else Inl (ParseError (''Unknown top-level key: '' @ quoted key
                    @ ''. Valid keys: entity, limit, order, include, where'')))"

fun parseClauses :: "string list \<Rightarrow> RQLQuery \<Rightarrow> ParseError + RQLQuery" where
  "parseClauses [] out = Inr out"
| "parseClauses (clause # clauses) out =
     (case parseClause clause out of
        Inl e \<Rightarrow> Inl e
      | Inr out' \<Rightarrow> parseClauses clauses out')"

definition parsePlainText :: "string \<Rightarrow> Schema option \<Rightarrow> ParseError + RQLQuery" where
  "parsePlainText input schema =
     (let trimmed = trim input
      in if trimmed = [] then Inr emptyQuery
         else (case splitTopLevel trimmed of
                 Inl e \<Rightarrow> Inl e
               | Inr clauses \<Rightarrow>
                   (case parseClauses clauses emptyQuery of
                      Inl e \<Rightarrow> Inl e
                    | Inr out \<Rightarrow>
                        (case schema of
                           None \<Rightarrow> Inr out
                         | Some sc \<Rightarrow>
                             (case validateAgainstSchema out sc of
                                Inl e \<Rightarrow> Inl e
                              | Inr u \<Rightarrow> Inr out)))))"

definition isValidPlainText :: "string \<Rightarrow> Schema option \<Rightarrow> bool" where
  "isValidPlainText input schema = (case parsePlainText input schema of Inl e \<Rightarrow> False | Inr q \<Rightarrow> True)"

section \<open>Cursor context (autocomplete.ts)\<close>

definition TOP_LEVEL_KEYS :: "string list" where
  "TOP_LEVEL_KEYS = [''entity:'', ''limit:'', ''order:'', ''include:'', ''where:('']"

definition WHERE_OPS :: "string list" where
  "WHERE_OPS = [''!='', ''<='', ''>='', ''='', ''<'', ''>'']"

datatype SegmentResult = SegmentResult (segmentOf: string) (startIndexOf: nat)

datatype WhereKind = FieldKind | ValueKind

datatype WhereParseResult = WhereParseResult WhereKind string "string option" "string option"

datatype TokenType = TokParen | TokKeyword | TokOp | TokValue | TokWord

datatype Token = Token TokenType string

fun tokenType :: "Token \<Rightarrow> TokenType" where
  "tokenType (Token t v) = t"

fun tokenValue :: "Token \<Rightarrow> string" where
  "tokenValue (Token t v) = v"

datatype CursorContext =
    TopLevel string "string list"
  | EntityValue string
  | LimitValue string
  | OrderValue string string "bool option"
  | IncludeValue string string
  | WhereField string string
  | WhereValue string string string string
  | Unknown string

text \<open>\<open>findNextKeyStart\<close>: the regular expression has the flags \<open>g\<close> and \<open>i\<close>.\<close>

definition findNextKeyStart :: "string \<Rightarrow> nat \<Rightarrow> nat" where
  "findNextKeyStart s fromIndex =
     (case regexExec True s fromIndex of Some m \<Rightarrow> m | None \<Rightarrow> length s)"

function skipQuotedString_loop :: "string \<Rightarrow> nat \<Rightarrow> nat" where
  "skipQuotedString_loop s i =
     (if i < length s then
        (if s ! i = BSL then skipQuotedString_loop s (i + 2)
         else if s ! i = DQ then i + 1
         else skipQuotedString_loop s (i + 1))
      else i)"
  by pat_completeness auto
termination
  by (relation "measure (\<lambda>(s, i). length s - i)") auto

declare skipQuotedString_loop.simps [simp del]

definition skipQuotedString :: "string \<Rightarrow> nat \<Rightarrow> nat" where
  "skipQuotedString s startIndex = skipQuotedString_loop s (startIndex + 1)"

lemma skipQuotedString_loop_ge: "i \<le> skipQuotedString_loop s i"
proof (induction s i rule: skipQuotedString_loop.induct)
  case (1 s i)
  show ?case
  proof (cases "i < length s")
    case False
    then show ?thesis by (subst skipQuotedString_loop.simps) simp
  next
    case lt: True
    show ?thesis
    proof (cases "s ! i = BSL")
      case True
      with lt "1.IH"(1) show ?thesis by (subst skipQuotedString_loop.simps) simp
    next
      case nb: False
      show ?thesis
      proof (cases "s ! i = DQ")
        case True
        with lt nb show ?thesis by (subst skipQuotedString_loop.simps) simp
      next
        case False
        with lt nb "1.IH"(2) show ?thesis by (subst skipQuotedString_loop.simps) simp
      qed
    qed
  qed
qed

lemma skipQuotedString_gt: "i < skipQuotedString s i"
  using skipQuotedString_loop_ge[of "i + 1" s] by (simp add: skipQuotedString_def)

function skipWhereBlock_loop :: "string \<Rightarrow> nat \<Rightarrow> nat \<Rightarrow> nat" where
  "skipWhereBlock_loop s i depth =
     (if i < length s \<and> depth > 0 then
        (if s ! i = BSL then skipWhereBlock_loop s (i + 2) depth
         else if s ! i = DQ then skipWhereBlock_loop s (skipQuotedString s i) depth
         else if s ! i = CHR ''('' then skipWhereBlock_loop s (i + 1) (depth + 1)
         else if s ! i = CHR '')'' then skipWhereBlock_loop s (i + 1) (depth - 1)
         else skipWhereBlock_loop s (i + 1) depth)
      else i)"
  by pat_completeness auto
termination
proof (relation "measure (\<lambda>(s, i, depth). length s - i)")
  fix s :: string and i depth :: nat
  assume "i < length s \<and> 0 < depth"
  then show "((s, skipQuotedString s i, depth), s, i, depth) \<in> measure (\<lambda>(s, i, depth). length s - i)"
    using skipQuotedString_gt[of i s] by auto
qed auto

declare skipWhereBlock_loop.simps [simp del]

definition skipWhereBlock :: "string \<Rightarrow> nat \<Rightarrow> nat" where
  "skipWhereBlock s startIndex =
     (let i = startIndex + 6
      in if charAt s i \<noteq> Some (CHR ''('') then i else skipWhereBlock_loop s (i + 1) 1)"

lemma skipWhereBlock_loop_ge: "i \<le> skipWhereBlock_loop s i depth"
proof (induction s i depth rule: skipWhereBlock_loop.induct)
  case (1 s i depth)
  show ?case
  proof (cases "i < length s \<and> depth > 0")
    case False
    then show ?thesis by (subst skipWhereBlock_loop.simps) auto
  next
    case c: True
    consider (b) "s ! i = BSL"
      | (q) "s ! i \<noteq> BSL" "s ! i = DQ"
      | (l) "s ! i \<noteq> BSL" "s ! i \<noteq> DQ" "s ! i = CHR ''(''"
      | (r) "s ! i \<noteq> BSL" "s ! i \<noteq> DQ" "s ! i \<noteq> CHR ''(''" "s ! i = CHR '')''"
      | (o) "s ! i \<noteq> BSL" "s ! i \<noteq> DQ" "s ! i \<noteq> CHR ''(''" "s ! i \<noteq> CHR '')''"
      by blast
    then show ?thesis
    proof cases
      case b
      with c "1.IH"(1) show ?thesis by (subst skipWhereBlock_loop.simps) simp
    next
      case q
      with c "1.IH"(2) skipQuotedString_gt[of i s] show ?thesis
        by (subst skipWhereBlock_loop.simps) simp
    next
      case l
      with c "1.IH"(3) show ?thesis by (subst skipWhereBlock_loop.simps) simp
    next
      case r
      with c "1.IH"(4) show ?thesis by (subst skipWhereBlock_loop.simps) simp
    next
      case o
      with c "1.IH"(5) show ?thesis by (subst skipWhereBlock_loop.simps) simp
    qed
  qed
qed

lemma skipWhereBlock_ge: "i + 6 \<le> skipWhereBlock s i"
  using skipWhereBlock_loop_ge[of "i + 6 + 1" s 1] by (auto simp: skipWhereBlock_def Let_def add.commute)

text \<open>The regular expression \<open>/^(k1|k2|...):/i\<close> on \<open>s\<close>: the key that matched.\<close>

definition keyPrefix :: "string list \<Rightarrow> string \<Rightarrow> string option" where
  "keyPrefix ks s = find (\<lambda>k. toLowerCase (take (length k + 1) s) = k @ '':'') ks"

text \<open>The loop that skips the value of \<open>include:\<close>.\<close>

function includeEnd :: "string \<Rightarrow> nat \<Rightarrow> nat" where
  "includeEnd s i0 =
     (if i0 < length s then
        (let i = scanWhile isSpace s i0
         in if i \<ge> length s then i
            else if slice s i (i + 6) = ''where:'' \<and> charAt s (i + 6) = Some (CHR ''('') then i
            else if keyPrefix [''entity'', ''limit'', ''order'', ''include''] (sliceFrom s i) \<noteq> None then i
            else if s ! i = DQ then includeEnd s (skipQuotedString s i)
            else includeEnd s (i + 1))
      else i0)"
  by pat_completeness auto
termination
proof (relation "measure (\<lambda>(s, i). length s - i)")
  fix s :: string and i0 i :: nat
  assume a: "i0 < length s" "i = scanWhile isSpace s i0" "\<not> length s \<le> i"
  have le: "i0 \<le> i" using a(2) scanWhile_ge by simp
  show "((s, skipQuotedString s i), s, i0) \<in> measure (\<lambda>(s, i). length s - i)"
    using le a skipQuotedString_gt[of i s] by auto
  show "((s, i + 1), s, i0) \<in> measure (\<lambda>(s, i). length s - i)"
    using le a by auto
qed simp

declare includeEnd.simps [simp del]

lemma includeEnd_ge: "i \<le> includeEnd s i"
proof (induction s i rule: includeEnd.induct)
  case (1 s i0)
  show ?case
  proof (cases "i0 < length s")
    case False
    then show ?thesis by (subst includeEnd.simps) simp
  next
    case lt: True
    define i where "i = scanWhile isSpace s i0"
    have le: "i0 \<le> i" unfolding i_def by (rule scanWhile_ge)
    have "includeEnd s i0 = i \<or> (\<not> length s \<le> i \<and> includeEnd s i0 = includeEnd s (skipQuotedString s i)
            \<and> skipQuotedString s i \<le> includeEnd s (skipQuotedString s i))
          \<or> (\<not> length s \<le> i \<and> includeEnd s i0 = includeEnd s (i + 1) \<and> i + 1 \<le> includeEnd s (i + 1))"
      using lt "1.IH"[OF lt i_def]
      by (subst (1 2 3) includeEnd.simps[of s i0]) (auto simp: Let_def i_def[symmetric])
    then show ?thesis using le skipQuotedString_gt[of i s] by auto
  qed
qed


text \<open>
  The loop of \<open>getSegmentAtCursor\<close> and the code after it. \<open>bc\<close> is \<open>beforeCursor\<close>; the loop
  carries \<open>i\<close> and \<open>lastClauseStart\<close>.
\<close>

definition getSegment_finish :: "string \<Rightarrow> nat \<Rightarrow> string \<Rightarrow> nat \<Rightarrow> SegmentResult" where
  "getSegment_finish query cursor bc lastClauseStart =
     (if cursor = length query \<and> length bc > 0 \<and> isSpace (last bc)
      then SegmentResult [] (length bc)
      else SegmentResult (sliceFrom bc lastClauseStart) lastClauseStart)"

function getSegment_loop :: "string \<Rightarrow> nat \<Rightarrow> string \<Rightarrow> nat \<Rightarrow> nat \<Rightarrow> SegmentResult" where
  "getSegment_loop query cursor bc i0 lastClauseStart =
     (if i0 < length bc then
        (let i = scanWhile isSpace bc i0
         in if i \<ge> length bc then getSegment_finish query cursor bc lastClauseStart
            else if bc ! i = DQ then
              getSegment_loop query cursor bc (skipQuotedString bc i) lastClauseStart
            else if slice bc i (i + 6) = ''where:'' \<and> charAt bc (i + 6) = Some (CHR ''('') then
              (let endOfBlock = skipWhereBlock bc i
               in if cursor \<le> endOfBlock then SegmentResult (slice bc i cursor) i
                  else SegmentResult (slice bc endOfBlock cursor) endOfBlock)
            else if toLowerCase (slice bc i (i + 6)) = ''order:'' then
              (let segmentEnd = findNextKeyStart bc (i + 6)
               in if cursor < segmentEnd then SegmentResult (slice bc i cursor) i
                  else if segmentEnd < length bc then
                    getSegment_loop query cursor bc segmentEnd segmentEnd
                  else if cursor = length bc \<and> bc \<noteq> [] \<and> isSpace (last bc)
                          \<and> trim (slice bc (i + 6) segmentEnd) = []
                  then getSegment_loop query cursor bc (length bc) (length bc)
                  else SegmentResult (slice bc i cursor) i)
            else
              (case keyPrefix [''entity'', ''limit'', ''include''] (sliceFrom bc i) of
                 Some k \<Rightarrow>
                   (let j = i + (length k + 1)
                    in if k = ''include''
                       then getSegment_loop query cursor bc (includeEnd bc j) i
                       else getSegment_loop query cursor bc
                              (scanWhile (\<lambda>c. \<not> isSpace c) bc j) i)
               | None \<Rightarrow>
                   getSegment_loop query cursor bc (scanWhile (\<lambda>c. \<not> isSpace c) bc i) i))
      else getSegment_finish query cursor bc lastClauseStart)"
  by pat_completeness auto
termination
proof (relation "measure (\<lambda>(query, cursor, bc, i, l). length bc - i)")
  fix query bc :: string and cursor i0 i l :: nat
  assume a: "i0 < length bc" "i = scanWhile isSpace bc i0" "\<not> length bc \<le> i"
  have le: "i0 \<le> i" using a(2) scanWhile_ge by simp
  show "((query, cursor, bc, skipQuotedString bc i, l), query, cursor, bc, i0, l)
          \<in> measure (\<lambda>(query, cursor, bc, i, l). length bc - i)"
    using le a skipQuotedString_gt[of i bc] by auto
next
  fix query bc :: string and cursor i0 i l segmentEnd :: nat
  assume a: "i0 < length bc" "i = scanWhile isSpace bc i0" "\<not> length bc \<le> i"
    and e: "segmentEnd = findNextKeyStart bc (i + 6)" "segmentEnd < length bc"
  have le: "i0 \<le> i" using a(2) scanWhile_ge by simp
  have "i + 6 \<le> segmentEnd" using e regexExec_ge[of True bc "i + 6"]
    by (auto simp: findNextKeyStart_def split: option.splits)
  then show "((query, cursor, bc, segmentEnd, segmentEnd), query, cursor, bc, i0, l)
          \<in> measure (\<lambda>(query, cursor, bc, i, l). length bc - i)"
    using le a by auto
next
  fix query bc :: string and cursor i0 l :: nat
  assume a: "i0 < length bc"
  then show "((query, cursor, bc, length bc, length bc), query, cursor, bc, i0, l)
          \<in> measure (\<lambda>(query, cursor, bc, i, l). length bc - i)"
    by auto
next
  fix query bc k :: string and cursor i0 i l j :: nat
  assume a: "i0 < length bc" "i = scanWhile isSpace bc i0" "\<not> length bc \<le> i"
    and j: "j = i + (length k + 1)"
  have le: "i0 \<le> i" using a(2) scanWhile_ge by simp
  show "((query, cursor, bc, includeEnd bc j, i), query, cursor, bc, i0, l)
          \<in> measure (\<lambda>(query, cursor, bc, i, l). length bc - i)"
    using le a j includeEnd_ge[of j bc] by auto
next
  fix query bc k :: string and cursor i0 i l j :: nat
  assume a: "i0 < length bc" "i = scanWhile isSpace bc i0" "\<not> length bc \<le> i"
    and j: "j = i + (length k + 1)"
  have le: "i0 \<le> i" using a(2) scanWhile_ge by simp
  show "((query, cursor, bc, scanWhile (\<lambda>c. \<not> isSpace c) bc j, i), query, cursor, bc, i0, l)
          \<in> measure (\<lambda>(query, cursor, bc, i, l). length bc - i)"
    using le a j scanWhile_ge[of j "\<lambda>c. \<not> isSpace c" bc] by auto
next
  fix query bc :: string and cursor i0 i l :: nat
  assume a: "i0 < length bc" "i = scanWhile isSpace bc i0" "\<not> length bc \<le> i"
  have le: "i0 \<le> i" using a(2) scanWhile_ge by simp
  have "\<not> isSpace (bc ! i)" using a scanWhile_stop[of isSpace bc i0] by simp
  then have "i < scanWhile (\<lambda>c. \<not> isSpace c) bc i"
    using a scanWhile_gt[of i bc "\<lambda>c. \<not> isSpace c"] by simp
  then show "((query, cursor, bc, scanWhile (\<lambda>c. \<not> isSpace c) bc i, i), query, cursor, bc, i0, l)
          \<in> measure (\<lambda>(query, cursor, bc, i, l). length bc - i)"
    using le a by auto
qed simp

declare getSegment_loop.simps [simp del]

definition getSegmentAtCursor :: "string \<Rightarrow> nat \<Rightarrow> SegmentResult" where
  "getSegmentAtCursor query cursor = getSegment_loop query cursor (slice query 0 cursor) 0 0"


text \<open>
  \<open>getEntityValueFromQuery\<close>: the first match of \<open>/entity:([^\s]*)/\<close> anywhere in the
  query, and its group.
\<close>

fun entityMatch :: "string \<Rightarrow> string option" where
  "entityMatch [] = None"
| "entityMatch (c # cs) =
     (if startsWith (c # cs) ''entity:''
      then Some (takeWhile (\<lambda>x. \<not> isSpace x) (drop 7 (c # cs)))
      else entityMatch cs)"

definition getEntityValueFromQuery :: "string \<Rightarrow> string" where
  "getEntityValueFromQuery query =
     (case entityMatch query of None \<Rightarrow> [] | Some g \<Rightarrow> trim g)"

text \<open>\<open>keys.add(k)\<close> on a \<open>Set\<close> kept in insertion order.\<close>

definition setAdd :: "'a list \<Rightarrow> 'a \<Rightarrow> 'a list" where
  "setAdd keys k = (if k \<in> set keys then keys else keys @ [k])"

function getTopLevelKeysUsed_loop :: "string \<Rightarrow> nat \<Rightarrow> string list \<Rightarrow> string list" where
  "getTopLevelKeysUsed_loop query i0 keys =
     (if i0 < length query then
        (let i = scanWhile isSpace query i0
         in if i \<ge> length query then keys
            else if query ! i = DQ then
              getTopLevelKeysUsed_loop query (skipQuotedString query i) keys
            else if slice query i (i + 6) = ''where:'' then
              getTopLevelKeysUsed_loop query (skipWhereBlock query i) (setAdd keys ''where'')
            else if toLowerCase (slice query i (i + 6)) = ''order:'' then
              getTopLevelKeysUsed_loop query (findNextKeyStart query (i + 6)) (setAdd keys ''order'')
            else
              (let j = scanWhile (\<lambda>c. \<not> isSpace c) query i;
                   seg = slice query i j
               in getTopLevelKeysUsed_loop query j
                    (case indexOf seg (CHR '':'') of
                       None \<Rightarrow> keys
                     | Some colonIndex \<Rightarrow>
                         (let key = toLowerCase (trim (slice seg 0 colonIndex))
                          in if key = ''entity'' \<or> key = ''limit'' \<or> key = ''include''
                             then setAdd keys key else keys))))
      else keys)"
  by pat_completeness auto
termination
proof (relation "measure (\<lambda>(query, i, keys). length query - i)")
  fix query :: string and i0 i :: nat and keys :: "string list"
  assume a: "i0 < length query" "i = scanWhile isSpace query i0" "\<not> length query \<le> i"
  have le: "i0 \<le> i" using a(2) scanWhile_ge by simp
  show "((query, skipQuotedString query i, keys), query, i0, keys)
          \<in> measure (\<lambda>(query, i, keys). length query - i)"
    using le a skipQuotedString_gt[of i query] by auto
next
  fix query :: string and i0 i :: nat and keys :: "string list"
  assume a: "i0 < length query" "i = scanWhile isSpace query i0" "\<not> length query \<le> i"
  have le: "i0 \<le> i" using a(2) scanWhile_ge by simp
  show "((query, skipWhereBlock query i, setAdd keys ''where''), query, i0, keys)
          \<in> measure (\<lambda>(query, i, keys). length query - i)"
    using le a skipWhereBlock_ge[of i query] by auto
next
  fix query :: string and i0 i :: nat and keys :: "string list"
  assume a: "i0 < length query" "i = scanWhile isSpace query i0" "\<not> length query \<le> i"
  have le: "i0 \<le> i" using a(2) scanWhile_ge by simp
  have "i < findNextKeyStart query (i + 6)"
    using a regexExec_ge[of True query "i + 6"]
    by (auto simp: findNextKeyStart_def split: option.splits)
  then show "((query, findNextKeyStart query (i + 6), setAdd keys ''order''), query, i0, keys)
          \<in> measure (\<lambda>(query, i, keys). length query - i)"
    using le a by auto
next
  fix query seg :: string and i0 i j :: nat and keys :: "string list"
  assume a: "i0 < length query" "i = scanWhile isSpace query i0" "\<not> length query \<le> i"
    and j: "j = scanWhile (\<lambda>c. \<not> isSpace c) query i"
  have le: "i0 \<le> i" using a(2) scanWhile_ge by simp
  have "\<not> isSpace (query ! i)" using a scanWhile_stop[of isSpace query i0] by simp
  then have "i < j"
    using a j scanWhile_gt[of i query "\<lambda>c. \<not> isSpace c"] by simp
  then show "((query, j, case indexOf seg (CHR '':'') of None \<Rightarrow> keys
            | Some colonIndex \<Rightarrow>
                let key = toLowerCase (trim (slice seg 0 colonIndex))
                in if key = ''entity'' \<or> key = ''limit'' \<or> key = ''include''
                   then setAdd keys key else keys), query, i0, keys)
          \<in> measure (\<lambda>(query, i, keys). length query - i)"
    using le a by auto
qed simp

declare getTopLevelKeysUsed_loop.simps [simp del]

definition getTopLevelKeysUsed :: "string \<Rightarrow> string list" where
  "getTopLevelKeysUsed query = getTopLevelKeysUsed_loop query 0 []"

text \<open>
  The loop of \<open>tokenizeWhereInner\<close> that reads a quoted string, entered after the opening
  quote: the value and the index where it stops.
\<close>

function quotedValue :: "string \<Rightarrow> nat \<Rightarrow> string \<Rightarrow> string \<times> nat" where
  "quotedValue s i v =
     (if i < length s then
        (if s ! i = BSL then
           (if i + 1 < length s then quotedValue s (i + 2) (v @ [s ! (i + 1)])
            else quotedValue s (i + 1) v)
         else if s ! i = DQ then (v, i + 1)
         else quotedValue s (i + 1) (v @ [s ! i]))
      else (v, i))"
  by pat_completeness auto
termination
  by (relation "measure (\<lambda>(s, i, v). length s - i)") auto

declare quotedValue.simps [simp del]

text \<open>
  The main loop of \<open>tokenizeWhereInner\<close>. It may not return: \<open>None\<close> is the loop running
  forever. When no branch applies and the word read at \<open>i\<close> is empty, nothing is pushed
  and \<open>i\<close> does not move.
\<close>

partial_function (option) tokenizeWhereInner_loop :: "string \<Rightarrow> nat \<Rightarrow> Token list \<Rightarrow> Token list option" where
  "tokenizeWhereInner_loop s i0 tokens =
     (if i0 < length s then
        (let i = scanWhile isSpace s i0
         in if i \<ge> length s then Some tokens
            else if s ! i = CHR ''('' \<or> s ! i = CHR '')'' then
              tokenizeWhereInner_loop s (i + 1) (tokens @ [Token TokParen [s ! i]])
            else if length s - i \<ge> 2 \<and> toLowerCase (slice s i (i + 2)) = ''or''
                    \<and> (i + 2 \<ge> length s \<or> \<not> wordChar (s ! (i + 2))) then
              tokenizeWhereInner_loop s (i + 2) (tokens @ [Token TokKeyword (slice s i (i + 2))])
            else if length s - i \<ge> 3 \<and> toLowerCase (slice s i (i + 3)) = ''and''
                    \<and> (i + 3 \<ge> length s \<or> \<not> wordChar (s ! (i + 3))) then
              tokenizeWhereInner_loop s (i + 3) (tokens @ [Token TokKeyword (slice s i (i + 3))])
            else
              (case find (\<lambda>opr. slice s i (i + length opr) = opr) WHERE_OPS of
                 Some opFound \<Rightarrow>
                   tokenizeWhereInner_loop s (i + length opFound) (tokens @ [Token TokOp opFound])
               | None \<Rightarrow>
                   if s ! i = DQ then
                     (case quotedValue s (i + 1) [] of
                        (v, j) \<Rightarrow> tokenizeWhereInner_loop s j (tokens @ [Token TokValue v]))
                   else
                     (let j = scanWhile wordChar s i; word = slice s i j
                      in if word \<noteq> [] then
                           tokenizeWhereInner_loop s j
                             (tokens @ [Token (if toLowerCase word = ''and'' \<or> toLowerCase word = ''or''
                                               then TokKeyword else TokWord) word])
                         else tokenizeWhereInner_loop s j tokens)))
      else Some tokens)"

declare tokenizeWhereInner_loop.simps [code]

definition tokenizeWhereInner :: "string \<Rightarrow> Token list option" where
  "tokenizeWhereInner s = tokenizeWhereInner_loop s 0 []"

text \<open>\<open>tokens[tokens.length - k]\<close>, \<open>undefined\<close> when there is no such token.\<close>

definition fromEnd :: "'a list \<Rightarrow> nat \<Rightarrow> 'a option" where
  "fromEnd xs k = (if k \<le> length xs then Some (xs ! (length xs - k)) else None)"

definition parseWhereInner :: "string \<Rightarrow> WhereParseResult option" where
  "parseWhereInner inner =
     (let trimmed = trimEnd inner
      in if trimmed = [] then Some (WhereParseResult FieldKind [] None None)
         else
           (case tokenizeWhereInner trimmed of
              None \<Rightarrow> None
            | Some tokens \<Rightarrow>
                if length tokens = 0 then Some (WhereParseResult FieldKind [] None None)
                else
                  let lastT = tokens ! (length tokens - 1);
                      prev = fromEnd tokens 2;
                      prevPrev = fromEnd tokens 3
                  in if tokenType lastT = TokWord then
                       (if map_option tokenType prev = Some TokOp
                        then Some (WhereParseResult ValueKind (tokenValue lastT)
                               (map_option tokenValue prevPrev) (map_option tokenValue prev))
                        else Some (WhereParseResult FieldKind (tokenValue lastT) None None))
                     else if tokenType lastT = TokOp then
                       Some (WhereParseResult ValueKind [] (map_option tokenValue prev)
                              (Some (tokenValue lastT)))
                     else if tokenType lastT = TokValue then
                       Some (WhereParseResult ValueKind (tokenValue lastT)
                              (map_option tokenValue prevPrev) (map_option tokenValue prev))
                     else Some (WhereParseResult FieldKind [] None None)))"


text \<open>
  \<open>getContext\<close>. The cursor is any integer; \<open>None\<close> is the call not returning.
  \<open>prevChar\<close> is \<open>query[safeCursor - 1]\<close>.
\<close>

definition afterLastComma :: "string \<Rightarrow> string" where
  "afterLastComma value =
     (case lastIndexOf value (CHR '','') of
        None \<Rightarrow> value
      | Some k \<Rightarrow> sliceFrom value (k + 1))"

definition orderContext :: "string \<Rightarrow> string \<Rightarrow> CursorContext" where
  "orderContext value entityValue =
     (let alc = afterLastComma value;
          partial =
            (if endsWith alc '' '' \<or> trim alc = [] then []
             else
               let trimmed = trimEnd alc
               in (case lastIndexOf trimmed (CHR '' '') of
                     None \<Rightarrow> trimmed
                   | Some lastSpace \<Rightarrow> sliceFrom trimmed (lastSpace + 1)));
          afterField = (length (trimEnd alc) > 0 \<and> endsWith alc '' '')
      in OrderValue partial entityValue (Some afterField))"

definition whereInner :: "string \<Rightarrow> string" where
  "whereInner value =
     (let inner = (if startsWith (trim value) ''('' then sliceFrom (trim value) 1 else trim value)
      in if endsWith inner '')'' then
           (let balance = foldl (\<lambda>b c. if c = CHR ''('' then b + 1
                                          else if c = CHR '')'' then b - 1 else b) (0::int) inner
            in if balance = - 1 then trim (slice inner 0 (length inner - 1)) else inner)
         else inner)"

definition whereContext :: "string \<Rightarrow> string \<Rightarrow> CursorContext option" where
  "whereContext value entityValue =
     (case parseWhereInner (whereInner value) of
        None \<Rightarrow> None
      | Some (WhereParseResult kind partial fld opr) \<Rightarrow>
          if kind = FieldKind then Some (WhereField partial entityValue)
          else Some (WhereValue partial
                 (case fld of None \<Rightarrow> [] | Some f \<Rightarrow> f)
                 (case opr of None \<Rightarrow> ''='' | Some v \<Rightarrow> v)
                 entityValue))"

definition getContext :: "string \<Rightarrow> int \<Rightarrow> CursorContext option" where
  "getContext query cursor =
     (let safeCursor = nat (max 0 (min cursor (int (length query))));
          seg = segmentOf (getSegmentAtCursor query safeCursor);
          entityValue = getEntityValueFromQuery query;
          usedKeys = getTopLevelKeysUsed query;
          prevChar = (if safeCursor = 0 then None else charAt query (safeCursor - 1))
      in if seg = [] then Some (TopLevel [] usedKeys)
         else
           (case indexOf seg (CHR '':'') of
              None \<Rightarrow>
                let trimmedSegment = toLowerCase (trim seg);
                    justTypedColon = (prevChar = Some (CHR '':''))
                in if justTypedColon \<and> trimmedSegment = ''entity'' then Some (EntityValue [])
                   else if justTypedColon \<and> trimmedSegment = ''limit'' then Some (LimitValue [])
                   else if justTypedColon \<and> trimmedSegment = ''order''
                   then Some (OrderValue [] entityValue None)
                   else if justTypedColon \<and> trimmedSegment = ''include''
                   then Some (IncludeValue [] entityValue)
                   else if trimmedSegment = ''where'' \<and> prevChar = Some (CHR ''('')
                   then Some (WhereField [] entityValue)
                   else Some (TopLevel (trim seg) usedKeys)
            | Some colonIndex \<Rightarrow>
                let key = toLowerCase (trim (slice seg 0 colonIndex));
                    value = sliceFrom seg (colonIndex + 1)
                in if key = ''entity'' then Some (EntityValue value)
                   else if key = ''limit'' then Some (LimitValue (trim value))
                   else if key = ''order'' then Some (orderContext value entityValue)
                   else if key = ''include''
                   then Some (IncludeValue (trim (afterLastComma value)) entityValue)
                   else if key = ''where'' then whereContext value entityValue
                   else Some (Unknown seg)))"

section \<open>Suggestions (autocomplete.ts, getSuggestions)\<close>

record Suggestion =
  label :: string
  insertText :: string
  replacePartial :: "bool option"
  replaceLength :: "nat option"

fun partialOf :: "CursorContext \<Rightarrow> string" where
  "partialOf (TopLevel p usedKeys) = p"
| "partialOf (EntityValue p) = p"
| "partialOf (LimitValue p) = p"
| "partialOf (OrderValue p entityValue afterField) = p"
| "partialOf (IncludeValue p entityValue) = p"
| "partialOf (WhereField p entityValue) = p"
| "partialOf (WhereValue p fld opr entityValue) = p"
| "partialOf (Unknown p) = p"

text \<open>\<open>matchesPartial\<close>; \<open>p\<close> is the lower-cased partial.\<close>

definition matchesPartial :: "string \<Rightarrow> string \<Rightarrow> bool" where
  "matchesPartial p nm = (p = [] \<or> startsWith (toLowerCase nm) p)"

definition withReplace :: "nat \<Rightarrow> Suggestion \<Rightarrow> Suggestion" where
  "withReplace replaceLen s =
     (if replacePartial s = Some False then s\<lparr>replaceLength := Some 0\<rparr>
      else s\<lparr>replaceLength := Some replaceLen\<rparr>)"

text \<open>The object \<open>{ label: x, insertText: x }\<close>.\<close>

definition plain :: "string \<Rightarrow> Suggestion" where
  "plain x = \<lparr>label = x, insertText = x, replacePartial = None, replaceLength = None\<rparr>"

definition findRelevantEntities :: "Schema \<Rightarrow> string \<Rightarrow> EntityDef list" where
  "findRelevantEntities schema entityValue =
     (if entityValue = [] then entities schema
      else
        let lowerEntityValue = toLowerCase entityValue
        in filter (\<lambda>e. toLowerCase (name e) = lowerEntityValue
                        \<or> startsWith (toLowerCase (name e)) lowerEntityValue)
             (entities schema))"

text \<open>
  The keys of \<open>fieldMap\<close> after the two loops over the relevant entities and their
  fields, in the order of \<open>fieldMap.keys()\<close>.
\<close>

definition fieldMapKeys :: "string \<Rightarrow> EntityDef list \<Rightarrow> string list" where
  "fieldMapKeys p relevantEntities =
     toSet (concat (map (\<lambda>e. filter (matchesPartial p)
                               (map fst (case fields' e of None \<Rightarrow> [] | Some fs \<Rightarrow> fs)))
                        relevantEntities))"

text \<open>\<open>k.replace(c, "")\<close>: the first occurrence of the character is removed.\<close>

definition keyName :: "string \<Rightarrow> string" where
  "keyName k = remove1 (CHR ''('') (remove1 (CHR '':'') k)"

definition getSuggestions :: "CursorContext \<Rightarrow> Schema \<Rightarrow> Suggestion list" where
  "getSuggestions context schema =
     (let p = toLowerCase (partialOf context);
          replaceLen = length (partialOf context)
      in case context of
           TopLevel partial usedKeys \<Rightarrow>
             map (\<lambda>k. withReplace replaceLen (plain k))
               (filter (\<lambda>k. keyName k \<notin> set usedKeys \<and> matchesPartial p (keyName k))
                  TOP_LEVEL_KEYS)
         | EntityValue partial \<Rightarrow>
             map (\<lambda>e. withReplace replaceLen (plain (name e)))
               (filter (\<lambda>e. matchesPartial p (name e)) (entities schema))
         | LimitValue partial \<Rightarrow> []
         | OrderValue partial entityValue afterField \<Rightarrow>
             map (\<lambda>f. withReplace replaceLen (plain f))
               (fieldMapKeys p (findRelevantEntities schema entityValue))
             @ (if afterField = Some True
                then map (\<lambda>d. withReplace replaceLen (plain d))
                       (filter (matchesPartial p) [''asc'', ''desc''])
                else [])
         | IncludeValue partial entityValue \<Rightarrow>
             map (\<lambda>r. withReplace replaceLen (plain r))
               (toSet (concat (map (\<lambda>e. filter (matchesPartial p)
                                          (case relations e of None \<Rightarrow> [] | Some rs \<Rightarrow> rs))
                                   (findRelevantEntities schema entityValue))))
         | WhereField partial entityValue \<Rightarrow>
             (let fieldMap = fieldMapKeys p (findRelevantEntities schema entityValue);
                  exactFieldMatch = (partial \<noteq> [] \<and> partial \<in> set fieldMap)
              in if exactFieldMatch
                 then map (\<lambda>opr. withReplace replaceLen
                             \<lparr>label = opr, insertText = opr, replacePartial = Some False,
                              replaceLength = None\<rparr>) WHERE_OPS
                 else map (\<lambda>f. withReplace replaceLen (plain f)) fieldMap)
         | WhereValue partial fld opr entityValue \<Rightarrow>
             map (\<lambda>v. withReplace replaceLen (plain v))
               (toSet (concat (map (\<lambda>e. case fields' e of
                                            None \<Rightarrow> []
                                          | Some fs \<Rightarrow>
                                              (case map_of fs fld of
                                                 None \<Rightarrow> []
                                               | Some fieldDef \<Rightarrow>
                                                   (case values' fieldDef of
                                                      None \<Rightarrow> []
                                                    | Some vs \<Rightarrow> filter (matchesPartial p) vs)))
                                   (findRelevantEntities schema entityValue))))
         | Unknown partial \<Rightarrow> [])"

text \<open>
  \<open>getSuggestions\<close> above is the list that the code returns. On a schema of plain
  objects the code does not return in one case: the where-value case reads the field
  definition with \<open>entity.fields?.[context.field]\<close>, which also finds what an object
  inherits. For the field name \<open>constructor\<close>, when the fields map of a relevant entity
  has no key of that name, \<open>fieldDef\<close> is the function \<open>Object\<close>, \<open>fieldDef.values\<close> is
  the function \<open>Object.values\<close>, and the loop \<open>for (const value of fieldDef.values)\<close>
  throws a TypeError. No other inherited property has a property \<open>values\<close>.
\<close>

definition valuesNotIterable :: "CursorContext \<Rightarrow> Schema \<Rightarrow> bool" where
  "valuesNotIterable context schema =
     (case context of
        WhereValue partial fld opr entityValue \<Rightarrow>
          fld = ''constructor''
          \<and> list_ex (\<lambda>e. case fields' e of None \<Rightarrow> False | Some fs \<Rightarrow> map_of fs fld = None)
               (findRelevantEntities schema entityValue)
      | _ \<Rightarrow> False)"

definition getSuggestionsAtCursor :: "string \<Rightarrow> int \<Rightarrow> Schema \<Rightarrow> Suggestion list option" where
  "getSuggestionsAtCursor query cursor schema =
     (case getContext query cursor of
        None \<Rightarrow> None
      | Some context \<Rightarrow> Some (getSuggestions context schema))"

section \<open>Properties of the suggestions\<close>

text \<open>
  The names of the fields of an entity, and the condition of the exact-match override of
  the where-field case: the partial is not empty and is, character for character, the name
  of a field of a relevant entity.
\<close>

definition fieldNames :: "EntityDef \<Rightarrow> string list" where
  "fieldNames e = map fst (case fields' e of None \<Rightarrow> [] | Some fs \<Rightarrow> fs)"

definition exactFieldName :: "CursorContext \<Rightarrow> Schema \<Rightarrow> bool" where
  "exactFieldName ctx schema =
     (case ctx of
        WhereField partial entityValue \<Rightarrow>
          partial \<noteq> [] \<and> list_ex (\<lambda>e. partial \<in> set (fieldNames e)) (findRelevantEntities schema entityValue)
      | _ \<Rightarrow> False)"

lemma set_dedup: "set (dedup seen xs) = set seen \<union> set xs"
  by (induction xs arbitrary: seen) auto

lemma set_toSet: "set (toSet xs) = set xs"
  by (simp add: toSet_def set_dedup)

lemma withReplace_label: "label (withReplace n s) = label s"
  by (simp add: withReplace_def)

lemma withReplace_law:
  "(if replacePartial (withReplace n s) = Some False then replaceLength (withReplace n s) = Some 0
    else replaceLength (withReplace n s) = Some n)"
  by (simp add: withReplace_def)

lemma startsWith_self: "startsWith x x"
  by (simp add: startsWith_def)

lemma startsWith_append: "startsWith a p \<Longrightarrow> startsWith (a @ b) p"
proof -
  assume "startsWith a p"
  then have t: "take (length p) a = p" by (simp add: startsWith_def)
  then have "length p \<le> length a" by (metis length_take min.cobounded2 min.commute)
  then show ?thesis using t by (simp add: startsWith_def)
qed

lemma matches_label: "matchesPartial p nm \<Longrightarrow> startsWith (toLowerCase nm) p"
  by (auto simp: matchesPartial_def startsWith_def)

lemma matches_key:
  "k \<in> set TOP_LEVEL_KEYS \<Longrightarrow> matchesPartial p (keyName k) \<Longrightarrow> startsWith (toLowerCase k) p"
proof -
  assume k: "k \<in> set TOP_LEVEL_KEYS" and m: "matchesPartial p (keyName k)"
  from k obtain b where "k = keyName k @ b"
    by (auto simp: TOP_LEVEL_KEYS_def keyName_def)
  then have "toLowerCase k = toLowerCase (keyName k) @ toLowerCase b"
    by (metis map_append toLowerCase_def)
  then show ?thesis using matches_label[OF m] startsWith_append by simp
qed

lemma fieldMapKeys_set:
  "set (fieldMapKeys p es) = {f. matchesPartial p f \<and> (\<exists>e \<in> set es. f \<in> set (fieldNames e))}"
  by (auto simp: fieldMapKeys_def set_toSet fieldNames_def)

lemma exact_iff:
  "(partial \<noteq> [] \<and> partial \<in> set (fieldMapKeys (toLowerCase partial) (findRelevantEntities schema ev)))
     = exactFieldName (WhereField partial ev) schema"
  by (auto simp: exactFieldName_def fieldMapKeys_set list_ex_iff matchesPartial_def startsWith_self)

text \<open>
  C1, as the claim states it, fails: in the where-field context with the partial \<open>status\<close>
  and the example schema, \<open>getSuggestions\<close> returns the six comparison operators, and the
  label \<open>!=\<close> does not start with \<open>status\<close>.
\<close>

theorem prefix_filter_counterexample:
  "getSuggestions (WhereField ''status'' ''user'') exampleSchema
     = [\<lparr>label = ''!='', insertText = ''!='', replacePartial = Some False, replaceLength = Some 0\<rparr>,
        \<lparr>label = ''<='', insertText = ''<='', replacePartial = Some False, replaceLength = Some 0\<rparr>,
        \<lparr>label = ''>='', insertText = ''>='', replacePartial = Some False, replaceLength = Some 0\<rparr>,
        \<lparr>label = ''='', insertText = ''='', replacePartial = Some False, replaceLength = Some 0\<rparr>,
        \<lparr>label = ''<'', insertText = ''<'', replacePartial = Some False, replaceLength = Some 0\<rparr>,
        \<lparr>label = ''>'', insertText = ''>'', replacePartial = Some False, replaceLength = Some 0\<rparr>]
   \<and> \<not> startsWith (toLowerCase ''!='') (toLowerCase ''status'')"
  by code_simp

text \<open>
  C1, amended: for every context and schema, every suggestion's label starts, compared
  through \<open>toLowerCase\<close>, with the context's partial, unless the context is where-field and
  its partial is not empty and is exactly the name of a field of a relevant entity; in
  that case the result is the six comparison operators, each with \<open>replacePartial = false\<close>
  and \<open>replaceLength = 0\<close>.
\<close>

theorem prefix_filter_law:
  "(\<not> exactFieldName ctx schema \<longrightarrow>
      (\<forall>s \<in> set (getSuggestions ctx schema).
         startsWith (toLowerCase (label s)) (toLowerCase (partialOf ctx))))
   \<and> (exactFieldName ctx schema \<longrightarrow>
      getSuggestions ctx schema
        = map (\<lambda>opr. \<lparr>label = opr, insertText = opr, replacePartial = Some False,
                      replaceLength = Some 0\<rparr>) WHERE_OPS)"
proof (cases ctx)
  case (WhereField partial ev)
  show ?thesis
  proof (cases "exactFieldName ctx schema")
    case True
    then have "partial \<noteq> [] \<and> partial \<in> set (fieldMapKeys (toLowerCase partial) (findRelevantEntities schema ev))"
      using exact_iff WhereField by simp
    then show ?thesis using True WhereField
      by (simp add: getSuggestions_def Let_def withReplace_def)
  next
    case False
    then have "\<not> (partial \<noteq> [] \<and> partial \<in> set (fieldMapKeys (toLowerCase partial) (findRelevantEntities schema ev)))"
      using exact_iff WhereField by simp
    then show ?thesis using False WhereField
      by (auto simp: getSuggestions_def Let_def withReplace_label plain_def fieldMapKeys_set matches_label)
  qed
qed (auto simp: getSuggestions_def Let_def withReplace_label plain_def exactFieldName_def
       fieldMapKeys_set set_toSet matches_label matches_key split: option.splits)

theorem prefix_filter_law_witness:
  "\<not> exactFieldName (WhereField ''sta'' ''user'') exampleSchema
   \<and> \<lparr>label = ''status'', insertText = ''status'', replacePartial = None, replaceLength = Some 3\<rparr>
        \<in> set (getSuggestions (WhereField ''sta'' ''user'') exampleSchema)
   \<and> startsWith (toLowerCase ''status'') (toLowerCase ''sta'')
   \<and> exactFieldName (WhereField ''status'' ''user'') exampleSchema
   \<and> getSuggestions (WhereField ''status'' ''user'') exampleSchema
        = map (\<lambda>opr. \<lparr>label = opr, insertText = opr, replacePartial = Some False,
                      replaceLength = Some 0\<rparr>) WHERE_OPS"
proof -
  have a: "\<not> exactFieldName (WhereField ''sta'' ''user'') exampleSchema" by code_simp
  have b: "\<lparr>label = ''status'', insertText = ''status'', replacePartial = None, replaceLength = Some 3\<rparr>
        \<in> set (getSuggestions (WhereField ''sta'' ''user'') exampleSchema)" by code_simp
  have c: "exactFieldName (WhereField ''status'' ''user'') exampleSchema" by code_simp
  show ?thesis
    using a b c prefix_filter_law[of "WhereField ''sta'' ''user''" exampleSchema]
      prefix_filter_law[of "WhereField ''status'' ''user''" exampleSchema]
    by force
qed

text \<open>
  C8: for every context and schema, every suggestion that \<open>getSuggestions\<close> returns has
  \<open>replaceLength = 0\<close> if its \<open>replacePartial\<close> is \<open>false\<close>, and \<open>replaceLength\<close> equal to the
  length of the context's partial otherwise.
\<close>

theorem replaceLength_law:
  "\<forall>s \<in> set (getSuggestions ctx schema).
     (if replacePartial s = Some False then replaceLength s = Some 0
      else replaceLength s = Some (length (partialOf ctx)))"
  by (cases ctx) (auto simp: getSuggestions_def Let_def withReplace_def)

theorem replaceLength_law_witness:
  "\<lparr>label = ''!='', insertText = ''!='', replacePartial = Some False, replaceLength = Some 0\<rparr>
     \<in> set (getSuggestions (WhereField ''status'' ''user'') exampleSchema)
   \<and> \<lparr>label = ''status'', insertText = ''status'', replacePartial = None, replaceLength = Some 3\<rparr>
     \<in> set (getSuggestions (WhereField ''sta'' ''user'') exampleSchema)
   \<and> length (partialOf (WhereField ''sta'' ''user'')) = 3"
proof -
  have a: "\<lparr>label = ''!='', insertText = ''!='', replacePartial = Some False, replaceLength = Some 0\<rparr>
     \<in> set (getSuggestions (WhereField ''status'' ''user'') exampleSchema)" by code_simp
  have b: "\<lparr>label = ''status'', insertText = ''status'', replacePartial = None, replaceLength = Some 3\<rparr>
     \<in> set (getSuggestions (WhereField ''sta'' ''user'') exampleSchema)" by code_simp
  show ?thesis
    using a b replaceLength_law[of "WhereField ''status'' ''user''" exampleSchema]
      replaceLength_law[of "WhereField ''sta'' ''user''" exampleSchema]
    by simp
qed

section \<open>Properties of the cursor context\<close>

text \<open>
  The loop of \<open>tokenizeWhereInner\<close> is stuck at an exclamation mark that no equals sign
  follows: it is no white space, parenthesis, keyword, operator, quote or word
  character, so no branch moves \<open>i\<close>.
\<close>

definition stuckAt :: "string \<Rightarrow> nat \<Rightarrow> bool" where
  "stuckAt s i = (i < length s \<and> s ! i = CHR ''!'' \<and> charAt s (i + 1) \<noteq> Some (CHR ''=''))"

lemma scanWhile_stay: "\<not> (i < length s \<and> P (s ! i)) \<Longrightarrow> scanWhile P s i = i"
  by (subst scanWhile.simps) auto

lemma slice_Cons: "i < length s \<Longrightarrow> slice s i (i + Suc k) = s ! i # slice s (Suc i) (Suc i + k)"
  by (simp add: slice_def Cons_nth_drop_Suc[symmetric])

lemma slice_Cons2:
  "i < length s \<Longrightarrow> slice s i (i + 2) = s ! i # (case charAt s (i + 1) of None \<Rightarrow> [] | Some c \<Rightarrow> [c])"
  by (cases "Suc i < length s")
     (auto simp: slice_def charAt_def Cons_nth_drop_Suc[symmetric] numeral_2_eq_2)

lemma stuck_no_op:
  assumes "stuckAt s i"
  shows "find (\<lambda>opr. slice s i (i + length opr) = opr) WHERE_OPS = None"
proof -
  from assms have lt: "i < length s" and c: "s ! i = CHR ''!''"
    and n: "charAt s (i + 1) \<noteq> Some (CHR ''='')" by (auto simp: stuckAt_def)
  have two: "slice s i (i + 2) \<noteq> [a, CHR ''='']" for a
    using slice_Cons2[OF lt] n by (auto split: option.splits)
  have one: "slice s i (i + 1) = ''!''"
    using slice_Cons[OF lt, of 0] c by (simp add: slice_def)
  show ?thesis using two one by (simp add: WHERE_OPS_def)
qed


lemma stuck_loops:
  assumes st: "stuckAt s i"
  shows "tokenizeWhereInner_loop s i tokens = None"
proof (rule ccontr)
  assume "tokenizeWhereInner_loop s i tokens \<noteq> None"
  then obtain y where "tokenizeWhereInner_loop s i tokens = Some y" by auto
  then have "\<not> stuckAt s i"
  proof (induct rule: tokenizeWhereInner_loop.raw_induct[rotated 1, consumes 1, case_names step])
    case (step f s i tokens y)
    show ?case
    proof
      assume stuck: "stuckAt s i"
      then have lt: "i < length s" and c: "s ! i = CHR ''!''" by (auto simp: stuckAt_def)
      have sp: "scanWhile isSpace s i = i"
        using c by (intro scanWhile_stay) (simp add: isSpace_def)
      have wc: "scanWhile wordChar s i = i"
        using c by (intro scanWhile_stay) (simp add: wordChar_def)
      have o: "toLowerCase (slice s i (i + 2)) \<noteq> ''or''"
        using slice_Cons2[OF lt] c
        by (auto simp: toLowerCase_def toLowerChar_def split: option.splits)
      have a: "toLowerCase (slice s i (i + 3)) \<noteq> ''and''"
        using slice_Cons[OF lt, of 2] c by (auto simp: toLowerCase_def toLowerChar_def)
      have e: "slice s i i = []" by (simp add: slice_def)
      from step.hyps(2) have "f s i tokens = Some y"
        using lt c sp wc o a e stuck_no_op[OF stuck] by (simp add: Let_def DQ_def)
      then have "\<not> stuckAt s i" by (rule step.hyps(1))
      then show False using stuck by simp
    qed
  qed
  then show False using st by simp
qed



lemma loop_word_step:
  assumes "i0 < length s" and "scanWhile isSpace s i0 = i" and "i < length s"
    and "s ! i \<noteq> CHR ''(''" and "s ! i \<noteq> CHR '')''"
    and "\<not> (length s - i \<ge> 2 \<and> toLowerCase (slice s i (i + 2)) = ''or''
            \<and> (i + 2 \<ge> length s \<or> \<not> wordChar (s ! (i + 2))))"
    and "\<not> (length s - i \<ge> 3 \<and> toLowerCase (slice s i (i + 3)) = ''and''
            \<and> (i + 3 \<ge> length s \<or> \<not> wordChar (s ! (i + 3))))"
    and "find (\<lambda>opr. slice s i (i + length opr) = opr) WHERE_OPS = None"
    and "s ! i \<noteq> DQ"
    and "scanWhile wordChar s i = j" and "slice s i j = w" and "w \<noteq> []"
    and "toLowerCase w \<noteq> ''and''" and "toLowerCase w \<noteq> ''or''"
  shows "tokenizeWhereInner_loop s i0 tokens
           = tokenizeWhereInner_loop s j (tokens @ [Token TokWord w])"
proof -
  have nle: "\<not> length s \<le> i" using assms(3) by simp
  show ?thesis
    by (subst tokenizeWhereInner_loop.simps)
       (simp only: assms nle Let_def if_True if_False simp_thms option.case)
qed

lemma tokenize_status_bang: "tokenizeWhereInner ''status!'' = None"
proof -
  let ?s = "''status!''"
  have step: "tokenizeWhereInner_loop ?s 0 []
                = tokenizeWhereInner_loop ?s 6 ([] @ [Token TokWord ''status''])"
    by (rule loop_word_step[where i = 0]; code_simp)
  have "stuckAt ?s 6" by code_simp
  then show ?thesis unfolding tokenizeWhereInner_def step by (rule stuck_loops)
qed

text \<open>
  C4 fails on the code: on the query \<open>entity:user where:(status!\<close> with the cursor at its
  end (position 26), what a user has typed on the way to \<open>status!=\<close>, \<open>getContext\<close> does not
  return: \<open>tokenizeWhereInner\<close> loops forever at the exclamation mark.
\<close>

theorem getContext_hangs:
  "getContext ''entity:user where:(status!'' 26 = None"
proof -
  let ?q = "''entity:user where:(status!''"
  have c: "nat (max 0 (min 26 (int (length ?q)))) = 26" by simp
  have seg: "segmentOf (getSegmentAtCursor ?q 26) = ''where:(status!''" by code_simp
  have idx: "indexOf ''where:(status!'' (CHR '':'') = Some 5" by code_simp
  have key: "toLowerCase (trim (slice ''where:(status!'' 0 5)) = ''where''" by code_simp
  have inner: "whereInner (sliceFrom ''where:(status!'' 6) = ''status!''" by code_simp
  have tr: "trimEnd ''status!'' = ''status!''" by code_simp
  have pw: "parseWhereInner ''status!'' = None"
    by (simp add: parseWhereInner_def Let_def tr tokenize_status_bang)
  show ?thesis
    unfolding getContext_def Let_def c seg idx
    by (simp add: key whereContext_def inner pw)
qed

text \<open>
  The pipeline fails on a second input: on \<open>entity:user where:(constructor=\<close> with the
  cursor at its end, \<open>getContext\<close> returns the where-value context of the field
  \<open>constructor\<close>, and for it \<open>getSuggestions\<close> throws the TypeError described at
  \<open>valuesNotIterable\<close>, since the entity \<open>user\<close> has no field of that name.
\<close>

lemma getSuggestions_values_not_iterable:
  "getContext ''entity:user where:(constructor='' 31
     = Some (WhereValue [] ''constructor'' ''='' ''user'')
   \<and> valuesNotIterable (WhereValue [] ''constructor'' ''='' ''user'') exampleSchema"
  by code_simp

section \<open>Properties of the parser\<close>

text \<open>
  The flattening invariant of a condition tree: every \<open>And\<close> and every \<open>Or\<close> node, at any
  depth, has at least two children, no \<open>And\<close> node has an \<open>And\<close> child and no \<open>Or\<close> node has
  an \<open>Or\<close> child.
\<close>

definition isAnd :: "RQLCondition \<Rightarrow> bool" where
  "isAnd c = (case c of And cs \<Rightarrow> True | _ \<Rightarrow> False)"

definition isOr :: "RQLCondition \<Rightarrow> bool" where
  "isOr c = (case c of Or cs \<Rightarrow> True | _ \<Rightarrow> False)"

fun flattened :: "RQLCondition \<Rightarrow> bool" where
  "flattened (Comparison f opr v) = True"
| "flattened (And cs) = (length cs \<ge> 2 \<and> list_all (\<lambda>c. \<not> isAnd c \<and> flattened c) cs)"
| "flattened (Or cs) = (length cs \<ge> 2 \<and> list_all (\<lambda>c. \<not> isOr c \<and> flattened c) cs)"

definition whereFlattened :: "RQLQuery \<Rightarrow> bool" where
  "whereFlattened q = (case where' q of None \<Rightarrow> True | Some c \<Rightarrow> flattened c)"

lemma trimEnd_prefix: "\<exists>r. s = trimEnd s @ r"
proof -
  have "rev s = takeWhile isSpace (rev s) @ dropWhile isSpace (rev s)" by simp
  then have "s = rev (dropWhile isSpace (rev s)) @ rev (takeWhile isSpace (rev s))"
    by (metis rev_append rev_rev_ident)
  then show ?thesis unfolding trimEnd_def by blast
qed

lemma trimEnd_Nil: "trimEnd [] = []"
  by (simp add: trimEnd_def)

lemma trimEnd_idem: "trimEnd (trimEnd s) = trimEnd s"
  by (simp add: trimEnd_def)

lemma trimStart_noop: "s = [] \<or> \<not> isSpace (hd s) \<Longrightarrow> trimStart s = s"
  by (cases s) (auto simp: trimStart_def)

lemma trim_head: "trim s = [] \<or> \<not> isSpace (hd (trim s))"
proof (cases "trim s = []")
  case True
  then show ?thesis by simp
next
  case False
  let ?u = "dropWhile isSpace s"
  obtain r where u: "?u = trimEnd ?u @ r" using trimEnd_prefix by blast
  have ne: "trimEnd ?u \<noteq> []" using False by (simp add: trim_def trimStart_def)
  then have "hd (trimEnd ?u) = hd ?u" using u by (metis hd_append2)
  moreover have "?u \<noteq> []"
  proof
    assume "?u = []"
    then have "trimEnd ?u = []" by (simp only: trimEnd_Nil)
    with ne show False by (simp only: not_False_eq_True simp_thms)
  qed
  then have "\<not> isSpace (hd ?u)" using hd_dropWhile by blast
  ultimately show ?thesis by (simp add: trim_def trimStart_def)
qed

lemma trim_idem: "trim (trim s) = trim s"
proof -
  have "trimStart (trim s) = trim s" using trim_head by (rule trimStart_noop)
  then have "trim (trim s) = trimEnd (trim s)" by (simp add: trim_def)
  also have "\<dots> = trim s" by (simp add: trim_def trimEnd_idem)
  finally show ?thesis .
qed

lemma set_trim: "set (trim s) \<subseteq> set s"
proof -
  have "set (trimEnd t) \<subseteq> set t" for t
  proof -
    have "set (dropWhile isSpace (rev t)) \<subseteq> set (rev t)" by (rule set_dropWhileD[THEN subsetI])
    then show ?thesis by (simp add: trimEnd_def)
  qed
  moreover have "set (trimStart s) \<subseteq> set s"
    unfolding trimStart_def by (rule set_dropWhileD[THEN subsetI])
  ultimately show ?thesis unfolding trim_def by blast
qed

lemma splitChar_none: "c \<notin> set s \<Longrightarrow> splitChar c s = [s]"
  by (induction s) auto

lemma parseOrderTerm_extra:
  assumes sp: "splitSpaces (trim part) = f # d # extra"
    and f: "toLowerCase f \<noteq> ''asc''" "toLowerCase f \<noteq> ''desc''"
    and d: "toLowerCase d = ''asc'' \<or> toLowerCase d = ''desc''"
  shows "parseOrderTerm part
           = Inr \<lparr>field = f, dir = (if toLowerCase d = ''asc'' then Asc else Desc)\<rparr>"
proof -
  have "splitSpaces [] = [[]]" by (subst splitSpaces.simps) simp
  then have ne: "trim part \<noteq> []" using sp by auto
  show ?thesis using ne sp f d by (auto simp: parseOrderTerm_def Let_def)
qed

text \<open>
  What the order branch does with a term of more than two tokens: it reads the first
  two and never looks at the others. For every clause \<open>order:v\<close> with one term whose
  second token is a direction, the result is the term of the first two tokens.
\<close>

lemma parseClause_order_extra:
  assumes "order out = None"
    and "CHR '','' \<notin> set v"
    and "splitSpaces (trim v) = f # d # extra"
    and "toLowerCase f \<noteq> ''asc''" and "toLowerCase f \<noteq> ''desc''"
    and "toLowerCase d = ''asc'' \<or> toLowerCase d = ''desc''"
  shows "parseClause (''order:'' @ v) out
           = Inr (out\<lparr>order := Some [\<lparr>field = f,
                    dir = (if toLowerCase d = ''asc'' then Asc else Desc)\<rparr>]\<rparr>)"
proof -
  have idx: "indexOf (''order:'' @ v) (CHR '':'') = Some 5" by simp
  have key: "toLowerCase (trim (slice (''order:'' @ v) 0 5)) = ''order''"
  proof -
    have "slice (''order:'' @ v) 0 5 = ''order''" by (simp add: slice_def)
    moreover have "toLowerCase (trim ''order'') = ''order''" by code_simp
    ultimately show ?thesis by simp
  qed
  have val: "sliceFrom (''order:'' @ v) (5 + 1) = v" by (simp add: sliceFrom_def)
  have "splitSpaces [] = [[]]" by (subst splitSpaces.simps) simp
  then have ne: "trim v \<noteq> []" using assms(3) by auto
  have "CHR '','' \<notin> set (trim v)" using assms(2) set_trim by blast
  then have parts: "splitChar (CHR '','') (trim v) = [trim v]" by (rule splitChar_none)
  have tm: "parseOrderTerm (trim v)
           = Inr \<lparr>field = f, dir = (if toLowerCase d = ''asc'' then Asc else Desc)\<rparr>"
    using assms(3-6) by (intro parseOrderTerm_extra) (simp_all add: trim_idem)
  show ?thesis
    unfolding parseClause_def idx option.case Let_def key val
    using assms(1) ne parts tm by simp
qed

text \<open>
  C2 fails on the code: a term of an order clause with tokens after the field and the
  direction is not an error. \<open>order:name asc extra\<close> parses, to the single term
  \<open>{field: name, dir: asc}\<close>, and so does a clause with two such terms. The parser does
  reject the same junk wherever else it meets it: as the second token of the term
  (\<open>order:name extra\<close> throws on the direction) and as an unknown key after another
  clause (\<open>entity:users sort:name\<close> throws); after a direction, the unknown key of
  \<open>order:name asc sort:name\<close> and the key of \<open>order:name desc LIMIT:5\<close> are swallowed.
\<close>

theorem order_extra_tokens_accepted:
  "parsePlainText ''order:name asc extra'' None
     = Inr \<lparr>entity = None, limit = None, order = Some [\<lparr>field = ''name'', dir = Asc\<rparr>],
           include' = None, where' = None\<rparr>
   \<and> parsePlainText ''order:name asc extra, age desc more junk'' None
     = Inr \<lparr>entity = None, limit = None,
           order = Some [\<lparr>field = ''name'', dir = Asc\<rparr>, \<lparr>field = ''age'', dir = Desc\<rparr>],
           include' = None, where' = None\<rparr>
   \<and> parsePlainText ''order:name extra'' None
     = Inl (ParseError (''Invalid order direction '' @ quoted ''extra'' @ ''. Use asc or desc.''))
   \<and> parsePlainText ''entity:users sort:name'' None
     = Inl (ParseError (''Unknown top-level key: '' @ quoted ''sort''
              @ ''. Valid keys: entity, limit, order, include, where''))
   \<and> parsePlainText ''order:name asc sort:name'' None
     = Inr \<lparr>entity = None, limit = None, order = Some [\<lparr>field = ''name'', dir = Asc\<rparr>],
           include' = None, where' = None\<rparr>
   \<and> parsePlainText ''order:name desc LIMIT:5'' None
     = Inr \<lparr>entity = None, limit = None, order = Some [\<lparr>field = ''name'', dir = Desc\<rparr>],
           include' = None, where' = None\<rparr>"
  by code_simp

text \<open>
  C3 fails on the code: the regular expression of \<open>splitTopLevel\<close> has no flag \<open>i\<close>, so in
  \<open>order:name LIMIT:5\<close> the order clause runs to the end of the input and the parser throws
  on the direction \<open>LIMIT:5\<close>. The same query with \<open>limit:5\<close> parses as order plus limit,
  the upper-case key \<open>LIMIT:5\<close> after an entity clause is accepted, and \<open>findNextKeyStart\<close> of
  autocomplete.ts, with the flag \<open>i\<close>, does find the key at index 10.
\<close>

theorem order_splitter_case_sensitive:
  "splitTopLevel ''order:name LIMIT:5'' = Inr [''order:name LIMIT:5'']
   \<and> parsePlainText ''order:name LIMIT:5'' None
       = Inl (ParseError (''Invalid order direction '' @ quoted ''LIMIT:5'' @ ''. Use asc or desc.''))
   \<and> parsePlainText ''order:name limit:5'' None
       = Inr \<lparr>entity = None, limit = Some 5, order = Some [\<lparr>field = ''name'', dir = Asc\<rparr>],
             include' = None, where' = None\<rparr>
   \<and> parsePlainText ''entity:users LIMIT:5'' None
       = Inr \<lparr>entity = Some ''users'', limit = Some 5, order = None, include' = None, where' = None\<rparr>
   \<and> findNextKeyStart ''order:name LIMIT:5'' 6 = 10"
  by code_simp

lemma orChildren_flat:
  "flattened c \<Longrightarrow> orChildren c \<noteq> [] \<and> list_all (\<lambda>x. \<not> isOr x \<and> flattened x) (orChildren c)"
  by (cases c) (auto simp: orChildren_def isOr_def)

lemma andChildren_flat:
  "flattened c \<Longrightarrow> andChildren c \<noteq> [] \<and> list_all (\<lambda>x. \<not> isAnd x \<and> flattened x) (andChildren c)"
  by (cases c) (auto simp: andChildren_def isAnd_def)

lemma or_flat:
  assumes "flattened l" "flattened r"
  shows "flattened (Or (orChildren l @ orChildren r))"
proof -
  from orChildren_flat[OF assms(1)] orChildren_flat[OF assms(2)]
  have "length (orChildren l) \<ge> 1" "length (orChildren r) \<ge> 1"
    by (auto simp: Suc_le_eq)
  then show ?thesis using orChildren_flat[OF assms(1)] orChildren_flat[OF assms(2)] by simp
qed

lemma concat_andChildren:
  "list_all flattened ts \<Longrightarrow>
     length ts \<le> length (concat (map andChildren ts)) \<and>
     list_all (\<lambda>x. \<not> isAnd x \<and> flattened x) (concat (map andChildren ts))"
proof (induction ts)
  case Nil
  then show ?case by simp
next
  case (Cons t ts)
  then have "andChildren t \<noteq> []" and "list_all (\<lambda>x. \<not> isAnd x \<and> flattened x) (andChildren t)"
    using andChildren_flat[of t] by auto
  moreover from this(1) have "1 \<le> length (andChildren t)" by (simp add: Suc_le_eq)
  ultimately show ?case using Cons by auto
qed

lemma and_flat:
  assumes "list_all flattened ts" "length ts \<noteq> 1" "ts \<noteq> []"
  shows "flattened (And (concat (map andChildren ts)))"
proof -
  have "2 \<le> length ts" using assms(2,3) by (cases ts) (auto simp: Suc_le_eq)
  then show ?thesis using concat_andChildren[OF assms(1)] by simp
qed

lemma parseComparison_flat:
  "parseComparison tokens pos = Inr (Some c, p) \<Longrightarrow> flattened c"
  unfolding parseComparison_def
  by (auto simp: Let_def split: if_splits option.splits prod.splits)

lemma parse_flat:
  "\<forall>c p. parseOr tokens pos = Inr (Some c, p) \<longrightarrow> flattened c"
  "\<forall>c p. parseAnd tokens pos = Inr (Some c, p) \<longrightarrow> flattened c"
  "\<forall>ts p. terms \<noteq> [] \<longrightarrow> list_all flattened terms \<longrightarrow>
      parseAnd_loop tokens pos terms = Inr (ts, p) \<longrightarrow> ts \<noteq> [] \<and> list_all flattened ts"
  "\<forall>c p. parsePrimary tokens pos = Inr (Some c, p) \<longrightarrow> flattened c"
proof (induct tokens pos and tokens pos and tokens pos terms and tokens pos
       rule: parseOr_parseAnd_parseAnd_loop_parsePrimary.induct)
  case (1 tokens pos)
  note IHand = "1.hyps"(1) and IHor = "1.hyps"(2)
  show ?case
  proof (intro allI impI)
    fix c p
    assume res: "parseOr tokens pos = Inr (Some c, p)"
    then obtain left pos1 where a: "parseAnd tokens pos = Inr (left, pos1)"
      by (subst (asm) parseOr.simps) (auto split: sum.splits)
    show "flattened c"
    proof (cases "length tokens \<le> pos1 \<or> \<not> isOrKeyword (tokens ! pos1)")
      case True
      then have "left = Some c" using res a
        by (subst (asm) parseOr.simps) (auto split: if_splits)
      then show ?thesis using IHand a by blast
    next
      case False
      then obtain l r where l: "left = Some l"
        and o: "parseOr tokens (pos1 + 1) = Inr (Some r, p)"
        and c: "c = Or (orChildren l @ orChildren r)"
        using res a
        by (subst (asm) parseOr.simps) (auto split: if_splits option.splits sum.splits)
      have "flattened l" using IHand a l by blast
      moreover have "flattened r" using IHor[OF a refl _ _ l] False o by blast
      ultimately show ?thesis unfolding c by (rule or_flat)
    qed
  qed
next
  case (2 tokens pos)
  note IHprim = "2.hyps"(1) and IHloop = "2.hyps"(2)
  show ?case
  proof (intro allI impI)
    fix c p
    assume res: "parseAnd tokens pos = Inr (Some c, p)"
    then obtain t pos1 where a: "parsePrimary tokens pos = Inr (Some t, pos1)"
      by (subst (asm) parseAnd.simps) (auto split: sum.splits option.splits)
    then obtain ts where lp: "parseAnd_loop tokens pos1 [t] = Inr (ts, p)"
      and c: "c = (if length ts = 1 then ts ! 0 else And (concat (map andChildren ts)))"
      using res
      by (subst (asm) parseAnd.simps) (auto split: sum.splits if_splits)
    have "flattened t" using IHprim a by blast
    then have ts: "ts \<noteq> [] \<and> list_all flattened ts"
      using IHloop[OF a refl refl] lp by simp
    show "flattened c"
    proof (cases "length ts = 1")
      case True
      then obtain x where "ts = [x]" by (cases ts) auto
      then show ?thesis using c ts by simp
    next
      case False
      then show ?thesis using c ts and_flat by simp
    qed
  qed
next
  case (3 tokens pos terms)
  note IHp1 = "3.hyps"(1) and IHl1 = "3.hyps"(2) and IHp2 = "3.hyps"(3) and IHl2 = "3.hyps"(4)
  show ?case
  proof (intro allI impI)
    fix ts p
    assume ne: "terms \<noteq> []" and fl: "list_all flattened terms"
      and res: "parseAnd_loop tokens pos terms = Inr (ts, p)"
    show "ts \<noteq> [] \<and> list_all flattened ts"
    proof (cases "pos < length tokens \<and> \<not> isOrKeyword (tokens ! pos)")
      case False
      then have "ts = terms" using res
        by (subst (asm) parseAnd_loop.simps) (auto split: if_splits)
      then show ?thesis using ne fl by simp
    next
      case c: True
      show ?thesis
      proof (cases "isAndKeyword (tokens ! pos)")
        case True
        then obtain t pos1 where a: "parsePrimary tokens (pos + 1) = Inr (Some t, pos1)"
          and lp: "parseAnd_loop tokens pos1 (terms @ [t]) = Inr (ts, p)"
          using res c
          by (subst (asm) parseAnd_loop.simps) (auto split: sum.splits option.splits if_splits)
        have "flattened t" using IHp1 c True a by blast
        then show ?thesis using IHl1[OF _ _ True a refl refl] c lp fl by simp
      next
        case False
        then obtain t pos1 where a: "parsePrimary tokens pos = Inr (t, pos1)"
          using res c
          by (subst (asm) parseAnd_loop.simps) (auto split: sum.splits if_splits)
        show ?thesis
        proof (cases t)
          case None
          then have "ts = terms" using res c False a
            by (subst (asm) parseAnd_loop.simps) (auto split: if_splits)
          then show ?thesis using ne fl by simp
        next
          case (Some t')
          then have lp: "parseAnd_loop tokens pos1 (terms @ [t']) = Inr (ts, p)"
            using res c False a by (subst (asm) parseAnd_loop.simps) (auto split: if_splits)
          have "flattened t'" using IHp2 c False a Some by blast
          then show ?thesis using IHl2[OF _ _ False a refl Some] c lp fl by simp
        qed
      qed
    qed
  qed
next
  case (4 tokens pos)
  note IHor = "4.hyps"(1)
  show ?case
  proof (intro allI impI)
    fix c p
    assume res: "parsePrimary tokens pos = Inr (Some c, p)"
    then have nl: "\<not> length tokens \<le> pos"
      by (subst (asm) parsePrimary.simps) (auto split: if_splits)
    show "flattened c"
    proof (cases "tokens ! pos = TParen ''(''")
      case True
      then obtain pos1 where o: "parseOr tokens (pos + 1) = Inr (Some c, pos1)"
        using res nl
        by (subst (asm) parsePrimary.simps) (auto split: sum.splits if_splits option.splits)
      then show ?thesis using IHor[OF nl True] by blast
    next
      case False
      then have "parseComparison tokens pos = Inr (Some c, p)" using res nl
        by (subst (asm) parsePrimary.simps) (auto split: if_splits)
      then show ?thesis by (rule parseComparison_flat)
    qed
  qed
qed

lemma parseWhere_flat: "parseWhere inner = Inr c \<Longrightarrow> flattened c"
  unfolding parseWhere_def using parse_flat(1)
  by (auto split: sum.splits if_splits option.splits prod.splits)

lemma parseClause_flat:
  "parseClause clause out = Inr out' \<Longrightarrow> whereFlattened out \<Longrightarrow> whereFlattened out'"
  unfolding parseClause_def whereFlattened_def
  by (auto simp: Let_def dest: parseWhere_flat split: option.splits if_splits sum.splits)

lemma parseClauses_flat:
  "parseClauses clauses out = Inr out' \<Longrightarrow> whereFlattened out \<Longrightarrow> whereFlattened out'"
proof (induction clauses arbitrary: out)
  case Nil
  then show ?case by simp
next
  case (Cons clause clauses)
  then show ?case by (auto split: sum.splits dest: parseClause_flat)
qed

text \<open>
  C6: whenever \<open>parsePlainText\<close> succeeds, with or without a schema, and the query has a
  where condition, the condition tree satisfies the flattening invariant: no \<open>And\<close> node has
  an \<open>And\<close> child, no \<open>Or\<close> node has an \<open>Or\<close> child, and every \<open>And\<close> and \<open>Or\<close> node has at
  least two children.
\<close>

theorem parse_where_flattened:
  "parsePlainText input schema = Inr q \<Longrightarrow> where' q = Some c \<Longrightarrow> flattened c"
proof -
  assume p: "parsePlainText input schema = Inr q" and w: "where' q = Some c"
  have e: "whereFlattened emptyQuery" by (simp add: whereFlattened_def emptyQuery_def)
  have "whereFlattened q"
    using p parseClauses_flat[OF _ e]
    by (auto simp: parsePlainText_def Let_def e split: if_splits sum.splits option.splits)
  then show ?thesis using w by (simp add: whereFlattened_def)
qed

theorem parse_where_flattened_witness:
  "parsePlainText ''where:((a=1 OR b=2) OR (c=3 AND (d=4 AND e=5)))'' None
     = Inr \<lparr>entity = None, limit = None, order = None, include' = None,
           where' = Some (Or [Comparison ''a'' ''='' (VNumber 1), Comparison ''b'' ''='' (VNumber 2),
                              And [Comparison ''c'' ''='' (VNumber 3), Comparison ''d'' ''='' (VNumber 4),
                                   Comparison ''e'' ''='' (VNumber 5)]])\<rparr>
   \<and> flattened (Or [Comparison ''a'' ''='' (VNumber 1), Comparison ''b'' ''='' (VNumber 2),
                    And [Comparison ''c'' ''='' (VNumber 3), Comparison ''d'' ''='' (VNumber 4),
                         Comparison ''e'' ''='' (VNumber 5)]])"
proof -
  have a: "parsePlainText ''where:((a=1 OR b=2) OR (c=3 AND (d=4 AND e=5)))'' None
     = Inr \<lparr>entity = None, limit = None, order = None, include' = None,
           where' = Some (Or [Comparison ''a'' ''='' (VNumber 1), Comparison ''b'' ''='' (VNumber 2),
                              And [Comparison ''c'' ''='' (VNumber 3), Comparison ''d'' ''='' (VNumber 4),
                                   Comparison ''e'' ''='' (VNumber 5)]])\<rparr>"
    by code_simp
  show ?thesis using a parse_where_flattened[OF a] by simp
qed

lemma validate_order_irrelevant:
  "validateAgainstSchema (rql\<lparr>order := ord\<rparr>) schema = validateAgainstSchema rql schema"
proof -
  have r: "validateRelations (rql\<lparr>order := ord\<rparr>) e = validateRelations rql e" for e
    by (simp add: validateRelations_def Let_def split: option.splits)
  have f: "validateFields (rql\<lparr>order := ord\<rparr>) e = validateFields rql e" for e
    by (simp add: validateFields_def Let_def split: option.splits prod.splits)
  show ?thesis
    by (auto simp add: validateAgainstSchema_def r f Let_def split: option.splits sum.splits)
qed

lemma validate_no_entity: "entity rql = None \<Longrightarrow> validateAgainstSchema rql schema = Inr ()"
proof -
  assume n: "entity rql = None"
  then have "find (\<lambda>e. Some (name e) = entity rql) (entities schema) = None"
    by (simp add: find_None_iff)
  then show ?thesis using n by (simp add: validateAgainstSchema_def truthy_def Let_def)
qed

lemma parse_with_schema:
  assumes "parsePlainText input None = Inr q"
  shows "parsePlainText input (Some sc)
       = (case validateAgainstSchema q sc of Inl e \<Rightarrow> Inl e | Inr u \<Rightarrow> Inr q)"
proof (cases "trim input = []")
  case True
  then have "q = emptyQuery" using assms by (simp add: parsePlainText_def)
  then have "validateAgainstSchema q sc = Inr ()"
    by (simp add: validate_no_entity emptyQuery_def)
  then show ?thesis using True assms by (simp add: parsePlainText_def)
next
  case False
  then obtain clauses where c: "splitTopLevel (trim input) = Inr clauses"
    and o: "parseClauses clauses emptyQuery = Inr q"
    using assms by (auto simp: parsePlainText_def Let_def split: sum.splits)
  show ?thesis using False c o by (simp add: parsePlainText_def Let_def)
qed

text \<open>
  C7: schema validation never rejects a query because of its order clause. If a query
  parses without a schema, and the schema accepts it with its order clause taken away
  (its entity, include relations and where fields validate), then parsing it with the
  schema succeeds with the same result, whatever the fields of its order terms are.
\<close>

theorem order_fields_not_validated:
  assumes "parsePlainText input None = Inr q"
    and "validateAgainstSchema (q\<lparr>order := None\<rparr>) sc = Inr ()"
  shows "parsePlainText input (Some sc) = Inr q"
  using assms validate_order_irrelevant[where rql = q and ord = None and schema = sc]
  by (simp add: parse_with_schema)

theorem order_fields_not_validated_witness:
  "parsePlainText ''entity:users order:nosuchfield desc'' None
     = Inr \<lparr>entity = Some ''users'', limit = None,
           order = Some [\<lparr>field = ''nosuchfield'', dir = Desc\<rparr>], include' = None, where' = None\<rparr>
   \<and> validateAgainstSchema
        (\<lparr>entity = Some ''users'', limit = None,
          order = Some [\<lparr>field = ''nosuchfield'', dir = Desc\<rparr>], include' = None, where' = None\<rparr>
           \<lparr>order := None\<rparr>) exampleSchema = Inr ()
   \<and> parsePlainText ''entity:users order:nosuchfield desc'' (Some exampleSchema)
     = Inr \<lparr>entity = Some ''users'', limit = None,
           order = Some [\<lparr>field = ''nosuchfield'', dir = Desc\<rparr>], include' = None, where' = None\<rparr>"
proof -
  have a: "parsePlainText ''entity:users order:nosuchfield desc'' None
     = Inr \<lparr>entity = Some ''users'', limit = None,
           order = Some [\<lparr>field = ''nosuchfield'', dir = Desc\<rparr>], include' = None, where' = None\<rparr>"
    by code_simp
  have b: "validateAgainstSchema
        (\<lparr>entity = Some ''users'', limit = None,
          order = Some [\<lparr>field = ''nosuchfield'', dir = Desc\<rparr>], include' = None, where' = None\<rparr>
           \<lparr>order := None\<rparr>) exampleSchema = Inr ()"
    by code_simp
  show ?thesis using a b order_fields_not_validated[OF a b] by simp
qed

text \<open>
  C10, as the claim states it, fails in its third case: when the entity that matches
  defines no fields map, the check of the include relations is still performed. With the
  entity \<open>Empty\<close>, of relations \<open>posts\<close> and no fields map, the query
  \<open>entity:Empty include:bogus where:(nofield=1)\<close> parses without a schema and throws
  with it, on the relation \<open>bogus\<close>; so it does when \<open>Empty\<close> has no relations at all.
\<close>

theorem validation_vacuous_counterexample:
  "parsePlainText ''entity:Empty include:bogus where:(nofield=1)'' None
     = Inr \<lparr>entity = Some ''Empty'', limit = None, order = None, include' = Some [''bogus''],
           where' = Some (Comparison ''nofield'' ''='' (VNumber 1))\<rparr>
   \<and> find (\<lambda>e. Some (name e) = Some ''Empty'')
        [\<lparr>name = ''Empty'', relations = Some [''posts''], fields' = None\<rparr>]
        = Some \<lparr>name = ''Empty'', relations = Some [''posts''], fields' = None\<rparr>
   \<and> parsePlainText ''entity:Empty include:bogus where:(nofield=1)''
        (Some \<lparr>entities = [\<lparr>name = ''Empty'', relations = Some [''posts''], fields' = None\<rparr>]\<rparr>)
     = Inl (ParseError (''Unknown relation '' @ quoted ''bogus'' @ '' for entity ''
              @ quoted ''Empty'' @ ''. Known relations: posts''))
   \<and> parsePlainText ''entity:Empty include:bogus where:(nofield=1)''
        (Some \<lparr>entities = [\<lparr>name = ''Empty'', relations = None, fields' = None\<rparr>]\<rparr>)
     = Inl (ParseError (''Unknown relation '' @ quoted ''bogus'' @ '' for entity ''
              @ quoted ''Empty'' @ ''. Known relations: ''))"
  by code_simp

text \<open>
  C10, amended: with a schema, validation is vacuous unless an entity resolves. For a
  query that parses without a schema, parsing with the schema succeeds with the same
  result, for any include relation names and where field names, if the schema has no
  entities, or if the query has no entity. If the entity that matches defines no fields
  map, only the check of the where fields is skipped: the parse succeeds for any where
  field names as soon as the include relations validate.
\<close>

theorem validation_vacuous:
  assumes "parsePlainText input None = Inr q"
  shows "(entities sc = [] \<longrightarrow> parsePlainText input (Some sc) = Inr q)
       \<and> (entity q = None \<longrightarrow> parsePlainText input (Some sc) = Inr q)
       \<and> (\<forall>e. find (\<lambda>e. Some (name e) = entity q) (entities sc) = Some e
                \<and> fields' e = None \<and> validateRelations q e = Inr ()
              \<longrightarrow> parsePlainText input (Some sc) = Inr q)"
proof (intro conjI impI allI)
  assume "entities sc = []"
  then show "parsePlainText input (Some sc) = Inr q"
    using assms by (simp add: parse_with_schema validateAgainstSchema_def)
next
  assume "entity q = None"
  then show "parsePlainText input (Some sc) = Inr q"
    using assms by (simp add: parse_with_schema validate_no_entity)
next
  fix e
  assume h: "find (\<lambda>e. Some (name e) = entity q) (entities sc) = Some e
             \<and> fields' e = None \<and> validateRelations q e = Inr ()"
  then have ent: "entity q = Some (name e)" and mem: "e \<in> set (entities sc)"
    by (auto simp: find_Some_iff)
  have "name e \<in> set (toSet (map name (entities sc)))"
    using mem by (simp add: set_toSet)
  moreover have "validateFields q e = Inr ()"
    using h by (simp add: validateFields_def split: option.splits)
  ultimately have "validateAgainstSchema q sc = Inr ()"
    using h ent by (simp add: validateAgainstSchema_def Let_def)
  then show "parsePlainText input (Some sc) = Inr q"
    using assms by (simp add: parse_with_schema)
qed

theorem validation_vacuous_witness:
  "parsePlainText ''entity:ghost include:bogus where:(nofield=1)'' (Some \<lparr>entities = []\<rparr>)
     = Inr \<lparr>entity = Some ''ghost'', limit = None, order = None, include' = Some [''bogus''],
           where' = Some (Comparison ''nofield'' ''='' (VNumber 1))\<rparr>
   \<and> parsePlainText ''include:bogus where:(nofield=1)'' (Some exampleSchema)
     = Inr \<lparr>entity = None, limit = None, order = None, include' = Some [''bogus''],
           where' = Some (Comparison ''nofield'' ''='' (VNumber 1))\<rparr>
   \<and> find (\<lambda>e. Some (name e) = Some ''Empty'')
        [\<lparr>name = ''Empty'', relations = Some [''posts''], fields' = None\<rparr>]
        = Some \<lparr>name = ''Empty'', relations = Some [''posts''], fields' = None\<rparr>
   \<and> parsePlainText ''entity:Empty include:posts where:(nofield=1)''
        (Some \<lparr>entities = [\<lparr>name = ''Empty'', relations = Some [''posts''], fields' = None\<rparr>]\<rparr>)
     = Inr \<lparr>entity = Some ''Empty'', limit = None, order = None, include' = Some [''posts''],
           where' = Some (Comparison ''nofield'' ''='' (VNumber 1))\<rparr>"
proof -
  let ?e = "\<lparr>name = ''Empty'', relations = Some [''posts''], fields' = None\<rparr>"
  let ?q3 = "\<lparr>entity = Some ''Empty'', limit = None, order = None, include' = Some [''posts''],
           where' = Some (Comparison ''nofield'' ''='' (VNumber 1))\<rparr>"
  have p1: "parsePlainText ''entity:ghost include:bogus where:(nofield=1)'' None
     = Inr \<lparr>entity = Some ''ghost'', limit = None, order = None, include' = Some [''bogus''],
           where' = Some (Comparison ''nofield'' ''='' (VNumber 1))\<rparr>" by code_simp
  have p2: "parsePlainText ''include:bogus where:(nofield=1)'' None
     = Inr \<lparr>entity = None, limit = None, order = None, include' = Some [''bogus''],
           where' = Some (Comparison ''nofield'' ''='' (VNumber 1))\<rparr>" by code_simp
  have p3: "parsePlainText ''entity:Empty include:posts where:(nofield=1)'' None = Inr ?q3"
    by code_simp
  have r3: "validateRelations ?q3 ?e = Inr ()" by code_simp
  have f3: "find (\<lambda>e. Some (name e) = entity ?q3) (entities \<lparr>entities = [?e]\<rparr>) = Some ?e"
    by simp
  show ?thesis
    using validation_vacuous[OF p1, of "\<lparr>entities = []\<rparr>"]
      validation_vacuous[OF p2, of exampleSchema]
      validation_vacuous[OF p3, of "\<lparr>entities = [?e]\<rparr>"] r3 f3
    by simp
qed

text \<open>
  Lemmas for C9: the tokenizer steps over a word, an operator and a quoted string that
  stand at a known place of the input.
\<close>

lemma scanWhile_step: "i < length s \<Longrightarrow> P (s ! i) \<Longrightarrow> scanWhile P s i = scanWhile P s (Suc i)"
  by (subst scanWhile.simps) simp

lemma scanWhile_run:
  "list_all P w \<Longrightarrow> r = [] \<or> \<not> P (hd r) \<Longrightarrow>
     scanWhile P (pre @ w @ r) (length pre) = length pre + length w"
proof (induction w arbitrary: pre)
  case Nil
  have "\<not> (length pre < length (pre @ r) \<and> P ((pre @ r) ! length pre))"
    using Nil.prems(2) by (cases r) (auto simp: nth_append)
  then show ?case using scanWhile_stay[of "length pre" "pre @ r" P] by simp
next
  case (Cons x xs)
  have "scanWhile P (pre @ (x # xs) @ r) (length pre)
          = scanWhile P (pre @ (x # xs) @ r) (Suc (length pre))"
    using Cons.prems(1) by (intro scanWhile_step) (auto simp: nth_append)
  also have "\<dots> = scanWhile P ((pre @ [x]) @ xs @ r) (length (pre @ [x]))" by simp
  also have "\<dots> = length (pre @ [x]) + length xs"
    using Cons.prems by (intro Cons.IH) auto
  finally show ?case by simp
qed

lemma slice_at: "slice (pre @ t) (length pre) (length pre + k) = take k t"
  by (simp add: slice_def)

lemma wordChar_no_op:
  assumes "i < length s" and "wordChar (s ! i)"
  shows "find (\<lambda>opr. slice s i (i + length opr) = opr) OPS = None"
proof -
  have "slice s i (i + Suc k) = s ! i # slice s (Suc i) (Suc i + k)" for k
    using assms(1) by (rule slice_Cons)
  from this[of 0] this[of 1] show ?thesis
    using assms(2) by (auto simp: OPS_def wordChar_def)
qed

lemma tok_end: "length s \<le> i \<Longrightarrow> tokenizeWhere_loop s i tokens = Inr tokens"
  by (subst tokenizeWhere_loop.simps) simp

lemma tok_word:
  assumes w: "w \<noteq> []" "list_all wordChar w" and r: "r = [] \<or> \<not> wordChar (hd r)"
  shows "tokenizeWhere_loop (pre @ w @ r) (length pre) tokens
           = tokenizeWhere_loop (pre @ w @ r) (length pre + length w) (tokens @ [wordToken w])"
proof -
  let ?s = "pre @ w @ r" and ?i = "length pre"
  have lt: "?i < length ?s" using w(1) by simp
  have c: "?s ! ?i = hd w" using w(1) by (cases w) (auto simp: nth_append)
  have wc: "wordChar (?s ! ?i)" using w c by (cases w) auto
  have sp: "scanWhile isSpace ?s ?i = ?i"
    using wc by (intro scanWhile_stay) (simp add: wordChar_def)
  have nle: "\<not> length ?s \<le> ?i" using lt by simp
  have p: "?s ! ?i \<noteq> CHR ''(''" "?s ! ?i \<noteq> CHR '')''" "?s ! ?i \<noteq> DQ"
    using wc by (auto simp: wordChar_def)
  have no: "find (\<lambda>opr. slice ?s ?i (?i + length opr) = opr) OPS = None"
    using lt wc by (rule wordChar_no_op)
  have run: "scanWhile wordChar ?s ?i = ?i + length w" using w(2) r by (rule scanWhile_run)
  have sl: "slice ?s ?i (?i + length w) = w" by (simp add: slice_at)
  show ?thesis
    by (subst tokenizeWhere_loop.simps)
       (simp only: lt sp nle p no run sl w(1) Let_def if_True if_False simp_thms option.case)
qed

lemma tok_op:
  assumes o: "opr \<in> set OPS" and r: "r = [] \<or> hd r \<noteq> CHR ''=''"
  shows "tokenizeWhere_loop (pre @ opr @ r) (length pre) tokens
           = tokenizeWhere_loop (pre @ opr @ r) (length pre + length opr) (tokens @ [TOp opr])"
proof -
  let ?s = "pre @ opr @ r" and ?i = "length pre"
  have ne: "opr \<noteq> []" using o by (auto simp: OPS_def)
  have lt: "?i < length ?s" using ne by simp
  have c: "?s ! ?i = hd opr" using ne by (cases opr) (auto simp: nth_append)
  have h: "hd opr \<in> set ''!<>=''" using o by (auto simp: OPS_def)
  have sp: "scanWhile isSpace ?s ?i = ?i"
    using c h by (intro scanWhile_stay) (auto simp: isSpace_def)
  have nle: "\<not> length ?s \<le> ?i" using lt by simp
  have p: "?s ! ?i \<noteq> CHR ''(''" "?s ! ?i \<noteq> CHR '')''" "?s ! ?i \<noteq> DQ"
    using c h by (auto simp: DQ_def)
  have sl: "slice ?s ?i (?i + k) = take k (opr @ r)" for k by (rule slice_at)
  have f: "find (\<lambda>x. slice ?s ?i (?i + length x) = x) OPS = Some opr"
    unfolding sl using o r by (cases r) (auto simp: OPS_def)
  show ?thesis
    by (subst tokenizeWhere_loop.simps)
       (simp only: lt sp nle p f Let_def if_True if_False simp_thms option.case)
qed

lemma readString_plain:
  "DQ \<notin> set v \<Longrightarrow> BSL \<notin> set v \<Longrightarrow>
     readString (pre @ v @ DQ # r) (length pre) acc = Some (acc @ v, length pre + length v + 1)"
proof (induction v arbitrary: pre acc)
  case Nil
  then show ?case by (subst readString.simps) (simp add: nth_append DQ_def BSL_def)
next
  case (Cons x xs)
  have "readString (pre @ (x # xs) @ DQ # r) (length pre) acc
          = readString (pre @ (x # xs) @ DQ # r) (length pre + 1) (acc @ [x])"
    using Cons.prems by (subst readString.simps) (auto simp: nth_append)
  also have "\<dots> = readString ((pre @ [x]) @ xs @ DQ # r) (length (pre @ [x])) (acc @ [x])"
    by simp
  also have "\<dots> = Some ((acc @ [x]) @ xs, length (pre @ [x]) + length xs + 1)"
    using Cons.prems by (intro Cons.IH) auto
  finally show ?case by simp
qed

lemma tok_string:
  assumes v: "DQ \<notin> set v" "BSL \<notin> set v"
  shows "tokenizeWhere_loop (pre @ quoted v @ r) (length pre) tokens
           = tokenizeWhere_loop (pre @ quoted v @ r) (length pre + length (quoted v))
               (tokens @ [TString v])"
proof -
  let ?s = "pre @ quoted v @ r" and ?i = "length pre"
  have lt: "?i < length ?s" by (simp add: quoted_def)
  have c: "?s ! ?i = DQ" by (simp add: quoted_def nth_append)
  have sp: "scanWhile isSpace ?s ?i = ?i"
    using c by (intro scanWhile_stay) (simp add: isSpace_def DQ_def)
  have nle: "\<not> length ?s \<le> ?i" using lt by simp
  have p: "DQ \<noteq> CHR ''(''" "DQ \<noteq> CHR '')''" by (simp_all add: DQ_def)
  have "readString ((pre @ [DQ]) @ v @ DQ # r) (length (pre @ [DQ])) []
          = Some ([] @ v, length (pre @ [DQ]) + length v + 1)"
    using v by (rule readString_plain)
  then have rs: "readString ?s (?i + 1) [] = Some (v, ?i + length (quoted v))"
    by (simp add: quoted_def)
  show ?thesis
    by (subst tokenizeWhere_loop.simps)
       (simp only: lt sp nle p c rs Let_def if_True if_False simp_thms option.case prod.case)
qed


lemma indexOf_Some: "indexOf s c = Some k \<Longrightarrow> k < length s \<and> s ! k = c"
  by (induction s arbitrary: k) (auto split: if_splits)

text \<open>The characters of a number literal: a digit, the minus sign or the point.\<close>

definition digitish :: "char \<Rightarrow> bool" where
  "digitish c = (isDigit c \<or> c = CHR ''-'' \<or> c = CHR ''.'')"

lemma allDigits_digitish: "allDigits ds \<Longrightarrow> list_all digitish ds"
  by (auto simp: allDigits_def digitish_def list_all_iff)

lemma isNumberLit_digitish:
  assumes "isNumberLit raw"
  shows "raw \<noteq> [] \<and> list_all digitish raw"
proof -
  define body where "body = (case raw of c # cs \<Rightarrow> if c = CHR ''-'' then cs else raw | [] \<Rightarrow> raw)"
  have b: "body \<noteq> [] \<and> list_all digitish body"
  proof (cases "indexOf body (CHR ''.'')")
    case None
    then have "allDigits body" using assms by (simp add: isNumberLit_def body_def Let_def)
    then show ?thesis using allDigits_digitish by (auto simp: allDigits_def)
  next
    case (Some k)
    then have a: "allDigits (take k body)" "allDigits (drop (k + 1) body)"
      using assms by (simp_all add: isNumberLit_def body_def Let_def)
    have k: "k < length body" "body ! k = CHR ''.''" using indexOf_Some[OF Some] by auto
    then have "body = take k body @ CHR ''.'' # drop (k + 1) body"
      by (metis Suc_eq_plus1 id_take_nth_drop)
    then have "list_all digitish body"
      using allDigits_digitish[OF a(1)] allDigits_digitish[OF a(2)]
      by (metis digitish_def list.pred_inject(2) list_all_append)
    then show ?thesis using k by auto
  qed
  show ?thesis
  proof (cases raw)
    case Nil
    then show ?thesis using b by (simp add: body_def)
  next
    case (Cons c cs)
    then show ?thesis using b by (auto simp: body_def digitish_def split: if_splits)
  qed
qed

lemma digitish_wordChar: "digitish c \<Longrightarrow> wordChar c"
  by (auto simp: digitish_def wordChar_def isSpace_def isDigit_def DQ_def)

lemma digitish_lower: "digitish c \<Longrightarrow> toLowerChar c = c"
  by (auto simp: digitish_def toLowerChar_def isDigit_def Let_def)

lemma digitish_toLowerCase: "list_all digitish raw \<Longrightarrow> toLowerCase raw = raw"
  by (induction raw) (auto simp: toLowerCase_def digitish_lower)

lemma number_wordToken:
  assumes "isNumberLit raw"
  shows "wordToken raw = TNumber (numberValue raw)"
proof -
  have d: "list_all digitish raw" using isNumberLit_digitish[OF assms] by simp
  then have l: "toLowerCase raw = raw" by (rule digitish_toLowerCase)
  have "raw \<noteq> ''and''" "raw \<noteq> ''or''" "raw \<noteq> ''true''" "raw \<noteq> ''false''"
    using d by (auto simp: digitish_def isDigit_def)
  then show ?thesis using assms l by (simp add: wordToken_def)
qed


lemma letter_wordChar: "toLowerChar c \<in> set ''truefalse'' \<Longrightarrow> wordChar c"
  by (rule ccontr) (auto simp: wordChar_def isSpace_def toLowerChar_def Let_def DQ_def)

lemma boolean_word:
  assumes "toLowerCase raw = ''true'' \<or> toLowerCase raw = ''false''"
  shows "raw \<noteq> [] \<and> list_all wordChar raw"
proof -
  have "\<forall>c \<in> set raw. toLowerChar c \<in> set ''truefalse''"
  proof
    fix c assume "c \<in> set raw"
    then have "toLowerChar c \<in> set (toLowerCase raw)" by (simp add: toLowerCase_def)
    then show "toLowerChar c \<in> set ''truefalse''" using assms by auto
  qed
  then have "list_all wordChar raw" using letter_wordChar by (auto simp: list_all_iff)
  moreover have "raw \<noteq> []" using assms by (auto simp: toLowerCase_def)
  ultimately show ?thesis by simp
qed

lemma boolean_wordToken:
  "toLowerCase raw = ''true'' \<Longrightarrow> wordToken raw = TBoolean True"
  "toLowerCase raw = ''false'' \<Longrightarrow> wordToken raw = TBoolean False"
  by (simp_all add: wordToken_def)

lemma OPS_head: "opr \<in> set OPS \<Longrightarrow> opr \<noteq> [] \<and> \<not> wordChar (hd opr)"
  by (auto simp: OPS_def wordChar_def)

lemma wordChar_not_eq: "wordChar c \<Longrightarrow> c \<noteq> CHR ''=''"
  by (auto simp: wordChar_def)

text \<open>The tokens of a field word, an operator and one more token read from \<open>x\<close>.\<close>

lemma tokenize_three:
  assumes f: "f \<noteq> []" "list_all wordChar f" and o: "opr \<in> set OPS"
    and x: "x \<noteq> []" "hd x \<noteq> CHR ''=''"
    and last: "\<And>pre tokens. tokenizeWhere_loop (pre @ x @ []) (length pre) tokens
                 = tokenizeWhere_loop (pre @ x @ []) (length pre + length x) (tokens @ [V])"
  shows "tokenizeWhere (f @ opr @ x) = Inr [wordToken f, TOp opr, V]"
proof -
  let ?s = "f @ opr @ x"
  have r1: "opr @ x = [] \<or> \<not> wordChar (hd (opr @ x))" using OPS_head[OF o] by simp
  have s1: "tokenizeWhere_loop ([] @ f @ opr @ x) (length ([] :: string)) []
              = tokenizeWhere_loop ([] @ f @ opr @ x) (length ([] :: string) + length f) ([] @ [wordToken f])"
    using f r1 by (rule tok_word)
  have s2: "tokenizeWhere_loop (f @ opr @ x) (length f) [wordToken f]
              = tokenizeWhere_loop (f @ opr @ x) (length f + length opr) ([wordToken f] @ [TOp opr])"
    using o x by (intro tok_op) simp_all
  have s3: "tokenizeWhere_loop ((f @ opr) @ x @ []) (length (f @ opr)) [wordToken f, TOp opr]
              = tokenizeWhere_loop ((f @ opr) @ x @ []) (length (f @ opr) + length x)
                  ([wordToken f, TOp opr] @ [V])"
    by (rule last)
  have s4: "tokenizeWhere_loop ?s (length ?s) [wordToken f, TOp opr, V]
              = Inr [wordToken f, TOp opr, V]"
    by (rule tok_end) simp
  show ?thesis unfolding tokenizeWhere_def using s1 s2 s3 s4 by (simp add: add.assoc)
qed

lemma parse_three:
  assumes "(case V of TString v \<Rightarrow> Some (VString v) | TNumber n \<Rightarrow> Some (VNumber n)
            | TBoolean b \<Rightarrow> Some (VBoolean b) | _ \<Rightarrow> None) = Some val"
  shows "parseOr [TIdent f f, TOp opr, V] 0 = Inr (Some (Comparison f opr val), 3)"
proof -
  let ?ts = "[TIdent f f, TOp opr, V]"
  have c: "parseComparison ?ts 0 = Inr (Some (Comparison f opr val), 3)"
    using assms by (auto simp: parseComparison_def Let_def split: WhereToken.splits)
  have p: "parsePrimary ?ts 0 = Inr (Some (Comparison f opr val), 3)"
    by (subst parsePrimary.simps) (simp add: c)
  have l: "parseAnd_loop ?ts 3 [Comparison f opr val] = Inr ([Comparison f opr val], 3)"
    by (subst parseAnd_loop.simps) simp
  have a: "parseAnd ?ts 0 = Inr (Some (Comparison f opr val), 3)"
    by (subst parseAnd.simps) (simp add: p l)
  show ?thesis by (subst parseOr.simps) (simp add: a)
qed

lemma parseWhere_three:
  assumes "tokenizeWhere s = Inr [TIdent f f, TOp opr, V]"
    and "(case V of TString v \<Rightarrow> Some (VString v) | TNumber n \<Rightarrow> Some (VNumber n)
            | TBoolean b \<Rightarrow> Some (VBoolean b) | _ \<Rightarrow> None) = Some val"
  shows "parseWhere s = Inr (Comparison f opr val)"
  using assms(1) parse_three[OF assms(2)] by (simp add: parseWhere_def)

text \<open>
  C9: in a where expression, after any field word and any of the six operators, a quoted
  value (here without quote or backslash inside) yields a string-typed comparison value,
  whatever its contents look like; an unquoted token that matches the numeric pattern
  yields a number, and one that is \<open>true\<close> or \<open>false\<close> in any case yields a boolean. In
  particular \<open>entity:items where:(id="18")\<close> parses to a comparison whose value is the
  string \<open>18\<close>, not the number.
\<close>

theorem quoted_values_are_strings:
  assumes "f \<noteq> []" and "list_all wordChar f" and "wordToken f = TIdent f f"
    and "opr \<in> set OPS"
  shows "(DQ \<notin> set v \<and> BSL \<notin> set v \<longrightarrow>
            parseWhere (f @ opr @ quoted v) = Inr (Comparison f opr (VString v)))
       \<and> (isNumberLit raw \<longrightarrow>
            parseWhere (f @ opr @ raw) = Inr (Comparison f opr (VNumber (numberValue raw))))
       \<and> (toLowerCase raw = ''true'' \<longrightarrow>
            parseWhere (f @ opr @ raw) = Inr (Comparison f opr (VBoolean True)))
       \<and> (toLowerCase raw = ''false'' \<longrightarrow>
            parseWhere (f @ opr @ raw) = Inr (Comparison f opr (VBoolean False)))
       \<and> parsePlainText (''entity:items where:(id='' @ quoted ''18'' @ '')'') None
            = Inr \<lparr>entity = Some ''items'', limit = None, order = None, include' = None,
                  where' = Some (Comparison ''id'' ''='' (VString ''18''))\<rparr>"
proof (intro conjI impI)
  assume v: "DQ \<notin> set v \<and> BSL \<notin> set v"
  have q: "quoted v \<noteq> []" "hd (quoted v) \<noteq> CHR ''=''" by (simp_all add: quoted_def DQ_def)
  have "tokenizeWhere (f @ opr @ quoted v) = Inr [wordToken f, TOp opr, TString v]"
    using assms(1,2,4) q
  proof (rule tokenize_three)
    fix pre tokens
    show "tokenizeWhere_loop (pre @ quoted v @ []) (length pre) tokens
            = tokenizeWhere_loop (pre @ quoted v @ []) (length pre + length (quoted v))
                (tokens @ [TString v])"
      using v by (intro tok_string) simp_all
  qed
  then show "parseWhere (f @ opr @ quoted v) = Inr (Comparison f opr (VString v))"
    unfolding assms(3) by (rule parseWhere_three) simp
next
  assume n: "isNumberLit raw"
  have d: "raw \<noteq> []" "list_all wordChar raw"
    using isNumberLit_digitish[OF n] digitish_wordChar by (auto simp: list_all_iff)
  then have h: "hd raw \<noteq> CHR ''=''" using wordChar_not_eq by (cases raw) auto
  have "tokenizeWhere (f @ opr @ raw) = Inr [wordToken f, TOp opr, wordToken raw]"
    using assms(1,2,4) d(1) h
  proof (rule tokenize_three)
    fix pre tokens
    show "tokenizeWhere_loop (pre @ raw @ []) (length pre) tokens
            = tokenizeWhere_loop (pre @ raw @ []) (length pre + length raw)
                (tokens @ [wordToken raw])"
      using d by (intro tok_word) simp_all
  qed
  then show "parseWhere (f @ opr @ raw) = Inr (Comparison f opr (VNumber (numberValue raw)))"
    unfolding assms(3) number_wordToken[OF n] by (rule parseWhere_three) simp
next
  assume t: "toLowerCase raw = ''true''"
  have d: "raw \<noteq> []" "list_all wordChar raw" using boolean_word t by auto
  then have h: "hd raw \<noteq> CHR ''=''" using wordChar_not_eq by (cases raw) auto
  have "tokenizeWhere (f @ opr @ raw) = Inr [wordToken f, TOp opr, wordToken raw]"
    using assms(1,2,4) d(1) h
  proof (rule tokenize_three)
    fix pre tokens
    show "tokenizeWhere_loop (pre @ raw @ []) (length pre) tokens
            = tokenizeWhere_loop (pre @ raw @ []) (length pre + length raw)
                (tokens @ [wordToken raw])"
      using d by (intro tok_word) simp_all
  qed
  then show "parseWhere (f @ opr @ raw) = Inr (Comparison f opr (VBoolean True))"
    unfolding assms(3) boolean_wordToken(1)[OF t] by (rule parseWhere_three) simp
next
  assume t: "toLowerCase raw = ''false''"
  have d: "raw \<noteq> []" "list_all wordChar raw" using boolean_word t by auto
  then have h: "hd raw \<noteq> CHR ''=''" using wordChar_not_eq by (cases raw) auto
  have "tokenizeWhere (f @ opr @ raw) = Inr [wordToken f, TOp opr, wordToken raw]"
    using assms(1,2,4) d(1) h
  proof (rule tokenize_three)
    fix pre tokens
    show "tokenizeWhere_loop (pre @ raw @ []) (length pre) tokens
            = tokenizeWhere_loop (pre @ raw @ []) (length pre + length raw)
                (tokens @ [wordToken raw])"
      using d by (intro tok_word) simp_all
  qed
  then show "parseWhere (f @ opr @ raw) = Inr (Comparison f opr (VBoolean False))"
    unfolding assms(3) boolean_wordToken(2)[OF t] by (rule parseWhere_three) simp
next
  show "parsePlainText (''entity:items where:(id='' @ quoted ''18'' @ '')'') None
            = Inr \<lparr>entity = Some ''items'', limit = None, order = None, include' = None,
                  where' = Some (Comparison ''id'' ''='' (VString ''18''))\<rparr>"
    by code_simp
qed

theorem quoted_values_are_strings_witness:
  "''id'' \<noteq> [] \<and> list_all wordChar ''id'' \<and> wordToken ''id'' = TIdent ''id'' ''id''
   \<and> ''='' \<in> set OPS \<and> DQ \<notin> set ''18'' \<and> BSL \<notin> set ''18'' \<and> isNumberLit ''18''
   \<and> toLowerCase ''TRUE'' = ''true'' \<and> toLowerCase ''False'' = ''false''
   \<and> parseWhere (''id'' @ ''='' @ quoted ''18'') = Inr (Comparison ''id'' ''='' (VString ''18''))
   \<and> parseWhere (''id'' @ ''='' @ ''18'') = Inr (Comparison ''id'' ''='' (VNumber 18))
   \<and> parseWhere (''id'' @ ''='' @ quoted ''true'') = Inr (Comparison ''id'' ''='' (VString ''true''))
   \<and> parseWhere (''id'' @ ''='' @ ''TRUE'') = Inr (Comparison ''id'' ''='' (VBoolean True))
   \<and> parseWhere (''id'' @ ''='' @ ''False'') = Inr (Comparison ''id'' ''='' (VBoolean False))"
proof -
  have a: "''id'' \<noteq> []" "list_all wordChar ''id''" "wordToken ''id'' = TIdent ''id'' ''id''"
    "''='' \<in> set OPS" by code_simp+
  have b: "DQ \<notin> set ''18'' \<and> BSL \<notin> set ''18''" "isNumberLit ''18''"
    "toLowerCase ''TRUE'' = ''true''" "toLowerCase ''False'' = ''false''"
    "DQ \<notin> set ''true'' \<and> BSL \<notin> set ''true''" by code_simp+
  have n: "numberValue ''18'' = 18" by code_simp
  show ?thesis
    using a b n quoted_values_are_strings[OF a, of "''18''" "''18''"]
      quoted_values_are_strings[OF a, of "''true''" "''TRUE''"]
      quoted_values_are_strings[OF a, of "''true''" "''False''"]
    by simp
qed













lemma wordToken_not_keyword:
  assumes "toLowerCase x \<noteq> ''and''" and "toLowerCase x \<noteq> ''or''"
  shows "\<not> isOrKeyword (wordToken x) \<and> \<not> isAndKeyword (wordToken x)
         \<and> wordToken x \<noteq> TParen ''(''"
  using assms by (simp add: wordToken_def isOrKeyword_def isAndKeyword_def)








end
